theory Spec2Isabelle
  imports Complex_Main
begin

section \<open>The PDF chapter splitter (\<^verbatim>\<open>pdf_splitter.py\<close>)\<close>

text \<open>
  A shallow embedding of the pure logic of \<^verbatim>\<open>pdf_splitter.py\<close>: the title-anchored
  offset scanner, the TOC extractor, the range mapper, the manual offset fallback, the
  projection of printed ranges to file ranges and the splitter's validation loop.

  The PDF libraries are external collaborators.  What they deliver is data of the model:
  a document is the outcome of opening it (missing, unreadable, or a list of pages), a
  page is its list of words and its plain text, a word is its text and an optional font
  size.  Python strings are modelled as lists of 7-bit ASCII characters; text outside
  ASCII is outside the model.  Python's unbounded integers are \<^typ>\<open>int\<close>.

  Font sizes are binary floating-point numbers in the source.  The functions of the
  scanner take the two floating-point operations they perform as parameters, \<open>round1\<close>
  for \<^verbatim>\<open>round(x, 1)\<close> and \<open>times_1_5\<close> for \<^verbatim>\<open>x * 1.5\<close>.  The source's operations are
  \<open>py_round1\<close> and \<open>float_times_1_5\<close>, defined below on the exact values of binary64
  numbers.  The theorems on the control flow of the scan hold for every choice of the
  two parameters; the theorem on the font-size analysis is about the source's operations.
\<close>

subsection \<open>Python string operations (ASCII)\<close>

definition whitespace_chars :: "char list" where
  \<comment> \<open>the ASCII characters for which \<^verbatim>\<open>str.isspace\<close> holds; the same set is \<^verbatim>\<open>\s\<close>\<close>
  "whitespace_chars =
     [CHR 0x09, CHR 0x0A, CHR 0x0B, CHR 0x0C, CHR 0x0D,
      CHR 0x1C, CHR 0x1D, CHR 0x1E, CHR 0x1F, CHR '' '']"

definition isspace :: "char \<Rightarrow> bool" where
  "isspace c = (c \<in> set whitespace_chars)"

definition isdigit :: "char \<Rightarrow> bool" where
  "isdigit c = (c \<in> set ''0123456789'')"

definition isalpha :: "char \<Rightarrow> bool" where
  "isalpha c =
     (c \<in> set ''abcdefghijklmnopqrstuvwxyz'' \<or> c \<in> set ''ABCDEFGHIJKLMNOPQRSTUVWXYZ'')"

definition isalnum :: "char \<Rightarrow> bool" where
  "isalnum c = (isalpha c \<or> isdigit c)"

definition is_word_char :: "char \<Rightarrow> bool" where
  \<comment> \<open>the regular expression class \<^verbatim>\<open>\w\<close>\<close>
  "is_word_char c = (isalnum c \<or> c = CHR ''_'')"

definition lower_char :: "char \<Rightarrow> char" where
  "lower_char c =
     (case map_of (zip ''ABCDEFGHIJKLMNOPQRSTUVWXYZ'' ''abcdefghijklmnopqrstuvwxyz'') c of
        Some d \<Rightarrow> d
      | None \<Rightarrow> c)"

definition lower :: "string \<Rightarrow> string" where
  "lower s = map lower_char s"

definition lstrip :: "string \<Rightarrow> string" where
  "lstrip s = dropWhile isspace s"

definition rstrip :: "string \<Rightarrow> string" where
  "rstrip s = rev (dropWhile isspace (rev s))"

definition strip :: "string \<Rightarrow> string" where
  "strip s = rstrip (lstrip s)"

fun split_acc :: "string \<Rightarrow> string \<Rightarrow> string list" where
  "split_acc cur [] = (if cur = [] then [] else [cur])"
| "split_acc cur (c # cs) =
     (if isspace c then (if cur = [] then split_acc [] cs else cur # split_acc [] cs)
      else split_acc (cur @ [c]) cs)"

definition split :: "string \<Rightarrow> string list" where
  \<comment> \<open>\<^verbatim>\<open>s.split()\<close>: the maximal runs of non-whitespace characters\<close>
  "split s = split_acc [] s"

fun join :: "string \<Rightarrow> string list \<Rightarrow> string" where
  "join sep [] = []"
| "join sep [x] = x"
| "join sep (x # y # ys) = x @ sep @ join sep (y # ys)"

fun startswith :: "string \<Rightarrow> string \<Rightarrow> bool" where
  "startswith s [] = True"
| "startswith [] (k # ks) = False"
| "startswith (c # cs) (k # ks) = (c = k \<and> startswith cs ks)"

fun py_in :: "string \<Rightarrow> string \<Rightarrow> bool" where
  \<comment> \<open>\<^verbatim>\<open>k in s\<close> on strings: \<open>k\<close> occurs in \<open>s\<close> as a contiguous substring\<close>
  "py_in k [] = (k = [])"
| "py_in k (c # cs) = (startswith (c # cs) k \<or> py_in k cs)"

definition digit_char :: "nat \<Rightarrow> char" where
  "digit_char d = ''0123456789'' ! d"

fun str_nat :: "nat \<Rightarrow> string" where
  "str_nat n =
     (if n < 10 then [digit_char n] else str_nat (n div 10) @ [digit_char (n mod 10)])"

declare str_nat.simps [simp del]

definition str_int :: "int \<Rightarrow> string" where
  \<comment> \<open>\<^verbatim>\<open>str(n)\<close> of an integer\<close>
  "str_int n = (if n < 0 then CHR ''-'' # str_nat (nat (- n)) else str_nat (nat n))"

subsection \<open>Documents, pages and words\<close>

record 'f word =
  wtext :: string
  wsize :: "'f option"

record 'f page =
  words :: "'f word list"
  page_text_raw :: string

text \<open>
  \<open>words\<close> is the result of \<^verbatim>\<open>page.extract_words(...)\<close>, \<open>page_text_raw\<close> the result of
  \<^verbatim>\<open>page.extract_text()\<close>; a page without text has the empty text.  A word without
  the \<^verbatim>\<open>'size'\<close> key has \<open>wsize = None\<close>.  Opening a document either fails (the file
  is missing, or the library raises another exception) or gives its pages.
\<close>

datatype 'f pdf = FileMissing | Unreadable | Pdf "'f page list"

subsection \<open>Floating-point font sizes\<close>

text \<open>
  A font size is a binary64 floating-point number; the model holds its exact value as a
  rational.  \<open>to_double\<close> rounds a rational to the nearest binary64 number, ties to the
  even significand, as every floating-point operation of the source does with its exact
  result.  Overflow and subnormal numbers, far from any font size, are outside the model.
\<close>

function bit_length :: "int \<Rightarrow> int" where
  \<comment> \<open>the number of binary digits of a positive integer\<close>
  "bit_length n = (if n \<le> 0 then 0 else 1 + bit_length (n div 2))"
  by pat_completeness auto
termination
  by (relation "measure nat") auto

declare bit_length.simps [simp del]

definition scale2 :: "rat \<Rightarrow> int \<Rightarrow> rat" where
  \<comment> \<open>\<open>x\<close> times two to the power \<open>e\<close>\<close>
  "scale2 x e = (if 0 \<le> e then x * 2 ^ nat e else x / 2 ^ nat (- e))"

definition round_half_even :: "rat \<Rightarrow> int" where
  "round_half_even y =
     (let f = \<lfloor>y\<rfloor>;
          d = y - of_int f
      in if d < 1 / 2 then f else if 1 / 2 < d then f + 1 else if even f then f else f + 1)"

definition float_exponent :: "rat \<Rightarrow> int" where
  \<comment> \<open>for \<open>x > 0\<close>: the \<open>k\<close> with \<open>2 ^ k \<le> x < 2 ^ (k + 1)\<close>\<close>
  "float_exponent x =
     (let k = bit_length (fst (quotient_of x)) - bit_length (snd (quotient_of x))
      in if scale2 1 k \<le> x then k else k - 1)"

definition to_double :: "rat \<Rightarrow> rat" where
  "to_double x =
     (if x = 0 then 0
      else
        let e = float_exponent \<bar>x\<bar> - 52;
            m = round_half_even (scale2 \<bar>x\<bar> (- e))
        in sgn x * scale2 (of_int m) e)"

definition py_round1 :: "rat \<Rightarrow> rat" where
  \<comment> \<open>\<^verbatim>\<open>round(x, 1)\<close>: the exact value is rounded to one decimal place, ties to the even
      digit, and the decimal result is converted to the nearest binary64 number\<close>
  "py_round1 x = to_double (of_int (round_half_even (x * 10)) / 10)"

definition float_times_1_5 :: "rat \<Rightarrow> rat" where
  \<comment> \<open>\<^verbatim>\<open>x * 1.5\<close>: the exact product rounded to binary64\<close>
  "float_times_1_5 x = to_double (x * (3 / 2))"

subsection \<open>The title-anchored offset scanner: \<^verbatim>\<open>find_offset_by_title_scan\<close>\<close>

definition title_match :: "string \<Rightarrow> string option" where
  \<comment> \<open>group 1 of \<^verbatim>\<open>re.search(r"^\d+\.?\d*\s*(.*)$", chapter_title)\<close>, \<open>None\<close> when there is
      no match.  Every quantifier of the prefix is greedy and the group accepts any
      text without a line feed, so the first attempt of the engine is the only one that
      can succeed; \<^verbatim>\<open>$\<close> also matches before a final line feed.\<close>
  "title_match t =
     (case t of
        [] \<Rightarrow> None
      | c # _ \<Rightarrow>
          if \<not> isdigit c then None
          else
            let r1 = dropWhile isdigit t;
                r2 = (case r1 of [] \<Rightarrow> r1 | d # ds \<Rightarrow> if d = CHR ''.'' then ds else r1);
                r3 = dropWhile isdigit r2;
                r4 = dropWhile isspace r3;
                g = (if r4 \<noteq> [] \<and> last r4 = CHR 0x0A then butlast r4 else r4)
            in if CHR 0x0A \<in> set g then None else Some g)"

definition clean_title_of :: "string \<Rightarrow> string" where
  "clean_title_of chapter_title =
     lower (case title_match chapter_title of
              Some g \<Rightarrow> strip g
            | None \<Rightarrow> strip chapter_title)"

definition search_key_of :: "string \<Rightarrow> string" where
  "search_key_of clean_title =
     join '' '' (take (min 5 (length (split clean_title))) (split clean_title))"

definition sized_words_of :: "'f word list \<Rightarrow> 'f word list" where
  "sized_words_of ws = filter (\<lambda>w. wsize w \<noteq> None) ws"

fun counter_add :: "'a \<Rightarrow> ('a \<times> nat) list \<Rightarrow> ('a \<times> nat) list" where
  "counter_add x [] = [(x, 1)]"
| "counter_add x ((y, n) # r) = (if x = y then (y, n + 1) # r else (y, n) # counter_add x r)"

definition Counter :: "'a list \<Rightarrow> ('a \<times> nat) list" where
  \<comment> \<open>\<^verbatim>\<open>collections.Counter(xs)\<close>: the counts, in the order of first occurrence\<close>
  "Counter xs = foldl (\<lambda>c x. counter_add x c) [] xs"

fun max_count :: "('a \<times> nat) \<Rightarrow> ('a \<times> nat) list \<Rightarrow> ('a \<times> nat)" where
  "max_count best [] = best"
| "max_count best (e # es) = max_count (if snd best < snd e then e else best) es"

definition most_common_1 :: "('a \<times> nat) list \<Rightarrow> ('a \<times> nat) list" where
  \<comment> \<open>\<^verbatim>\<open>most_common(1)\<close>: the first entry, in iteration order, of the largest count\<close>
  "most_common_1 c = (case c of [] \<Rightarrow> [] | e # es \<Rightarrow> [max_count e es])"

definition baseline_size_of :: "'f list \<Rightarrow> 'f option" where
  \<comment> \<open>\<^verbatim>\<open>Counter(sizes).most_common(1)[0][0]\<close>; \<open>None\<close> is the IndexError of an empty result\<close>
  "baseline_size_of sizes =
     (case most_common_1 (Counter sizes) of [] \<Rightarrow> None | e # _ \<Rightarrow> Some (fst e))"

definition is_large :: "('f::linorder \<Rightarrow> 'f) \<Rightarrow> 'f \<Rightarrow> 'f word \<Rightarrow> bool" where
  \<comment> \<open>\<^verbatim>\<open>round(word['size'], 1) >= large_size_threshold\<close>\<close>
  "is_large round1 large_size_threshold w = (large_size_threshold \<le> round1 (the (wsize w)))"

definition block_step ::
  "('f::linorder \<Rightarrow> 'f) \<Rightarrow> 'f \<Rightarrow> string \<times> string list \<Rightarrow> 'f word \<Rightarrow> string \<times> string list"
where
  \<comment> \<open>one round of the aggregation loop on the state \<open>(current_block, large_text_blocks)\<close>\<close>
  "block_step round1 large_size_threshold st w =
     (case st of (current_block, large_text_blocks) \<Rightarrow>
        if is_large round1 large_size_threshold w
        then (current_block @ wtext w @ '' '', large_text_blocks)
        else if current_block \<noteq> []
        then ([], large_text_blocks @ [strip current_block])
        else (current_block, large_text_blocks))"

definition large_text_blocks_of ::
  "('f::linorder \<Rightarrow> 'f) \<Rightarrow> 'f \<Rightarrow> 'f word list \<Rightarrow> string list"
where
  "large_text_blocks_of round1 large_size_threshold sized_words =
     (case foldl (block_step round1 large_size_threshold) ([], []) sized_words of
        (current_block, large_text_blocks) \<Rightarrow>
          if current_block \<noteq> [] then large_text_blocks @ [strip current_block]
          else large_text_blocks)"

definition block_clean_of :: "string \<Rightarrow> string" where
  \<comment> \<open>\<^verbatim>\<open>re.sub(r'[^\w\s]', '', block).lower()\<close>\<close>
  "block_clean_of block = lower (filter (\<lambda>c. is_word_char c \<or> isspace c) block)"

definition title_found_in :: "string \<Rightarrow> string list \<Rightarrow> bool" where
  "title_found_in search_key large_text_blocks =
     list_ex (\<lambda>block. py_in search_key (block_clean_of block)) large_text_blocks"

datatype page_check = Skipped | Raised | Checked bool bool

definition check_page ::
  "('f::linorder \<Rightarrow> 'f) \<Rightarrow> ('f \<Rightarrow> 'f) \<Rightarrow> string \<Rightarrow> string \<Rightarrow> 'f page \<Rightarrow> page_check"
where
  \<comment> \<open>the body of the page loop up to the dual check: \<open>Skipped\<close> is \<^verbatim>\<open>continue\<close>,
      \<open>Checked title_found page_number_found\<close> carries the two flags, \<open>Raised\<close> is an
      exception (caught by the function's handler)\<close>
  "check_page round1 times_1_5 search_key page_number_key p =
     (if words p = [] then Skipped
      else
        let sized_words = sized_words_of (words p) in
        if sized_words = [] then Skipped
        else
          let sizes = map (\<lambda>w. round1 (the (wsize w))) sized_words in
          case baseline_size_of sizes of
            None \<Rightarrow> Raised
          | Some baseline_size \<Rightarrow>
              let large_size_threshold = times_1_5 baseline_size;
                  large_text_blocks =
                    large_text_blocks_of round1 large_size_threshold sized_words;
                  title_found = title_found_in search_key large_text_blocks;
                  page_number_found = py_in page_number_key (page_text_raw p)
              in Checked title_found page_number_found)"

fun scan_pages ::
  "('f::linorder \<Rightarrow> 'f) \<Rightarrow> ('f \<Rightarrow> 'f) \<Rightarrow> string \<Rightarrow> string \<Rightarrow> 'f page list \<Rightarrow> int \<Rightarrow>
   nat list \<Rightarrow> int list \<Rightarrow> (int \<times> int) option \<times> int list"
where
  \<comment> \<open>the loop \<^verbatim>\<open>for i in range(start_index, scan_limit)\<close>; the last argument logs the
      1-indexed file pages read through the PDF reader\<close>
  "scan_pages round1 times_1_5 search_key page_number_key pages printed_start_page [] visited =
     (None, visited)"
| "scan_pages round1 times_1_5 search_key page_number_key pages printed_start_page (i # is) visited =
     (let file_page = int i + 1;
          visited' = visited @ [file_page]
      in case check_page round1 times_1_5 search_key page_number_key (pages ! i) of
           Skipped \<Rightarrow>
             scan_pages round1 times_1_5 search_key page_number_key pages printed_start_page
               is visited'
         | Raised \<Rightarrow> (None, visited')
         | Checked title_found page_number_found \<Rightarrow>
             if title_found \<and> page_number_found
             then (Some (file_page - printed_start_page, file_page), visited')
             else scan_pages round1 times_1_5 search_key page_number_key pages
                    printed_start_page is visited')"

definition scan_range :: "int \<Rightarrow> nat \<Rightarrow> nat list" where
  \<comment> \<open>\<^verbatim>\<open>range(start_index, scan_limit)\<close> with \<^verbatim>\<open>start_index = max(0, toc_end_file_page)\<close>
      and \<^verbatim>\<open>scan_limit = min(start_index + 50, total_pages)\<close>\<close>
  "scan_range toc_end_file_page total_pages =
     (let start_index = max 0 toc_end_file_page;
          scan_limit = min (start_index + 50) (int total_pages)
      in [nat start_index ..< nat scan_limit])"

definition find_offset_by_title_scan ::
  "('f::linorder \<Rightarrow> 'f) \<Rightarrow> ('f \<Rightarrow> 'f) \<Rightarrow> bool \<Rightarrow> 'f pdf \<Rightarrow> string \<Rightarrow> int \<Rightarrow> int \<Rightarrow>
   (int \<times> int) option \<times> int list"
where
  \<comment> \<open>returns the function's result, \<open>Some (calculated_offset, file_page)\<close> or \<open>None\<close>,
      and the log of file pages read\<close>
  "find_offset_by_title_scan round1 times_1_5 pdfplumber pdf chapter_title
       printed_start_page toc_end_file_page =
     (if \<not> pdfplumber then (None, [])
      else
        let clean_title = clean_title_of chapter_title in
        if clean_title = [] then (None, [])
        else
          let search_key = search_key_of clean_title;
              page_number_key = str_int printed_start_page
          in case pdf of
               FileMissing \<Rightarrow> (None, [])
             | Unreadable \<Rightarrow> (None, [])
             | Pdf pages \<Rightarrow>
                 scan_pages round1 times_1_5 search_key page_number_key pages
                   printed_start_page (scan_range toc_end_file_page (length pages)) [])"

subsection \<open>Integer input: \<^verbatim>\<open>int(s)\<close>\<close>

definition digit_value :: "char \<Rightarrow> nat" where
  "digit_value c = length (takeWhile (\<lambda>d. d \<noteq> c) ''0123456789'')"

definition digits_value :: "string \<Rightarrow> nat" where
  "digits_value ds = foldl (\<lambda>n c. 10 * n + digit_value c) 0 ds"

fun digits_tail :: "string \<Rightarrow> bool" where
  \<comment> \<open>what may follow a digit: digits, single underscores between digits\<close>
  "digits_tail [] = True"
| "digits_tail (c # cs) =
     (if isdigit c then digits_tail cs
      else if c = CHR ''_'' then (case cs of [] \<Rightarrow> False | d # ds \<Rightarrow> isdigit d \<and> digits_tail ds)
      else False)"

definition valid_int_body :: "string \<Rightarrow> bool" where
  "valid_int_body body = (case body of [] \<Rightarrow> False | c # cs \<Rightarrow> isdigit c \<and> digits_tail cs)"

definition py_int :: "string \<Rightarrow> int option" where
  \<comment> \<open>\<^verbatim>\<open>int(s)\<close> in base ten: surrounding whitespace, an optional sign, decimal digits
      with single underscores between them; \<open>None\<close> is the ValueError\<close>
  "py_int s =
     (let t = strip s;
          negative = (t \<noteq> [] \<and> hd t = CHR ''-'');
          body = (if t \<noteq> [] \<and> (hd t = CHR ''-'' \<or> hd t = CHR ''+'') then tl t else t)
      in if valid_int_body body
         then Some ((if negative then - 1 else 1) * int (digits_value (filter isdigit body)))
         else None)"

subsection \<open>Dictionaries in insertion order\<close>

fun dict_set :: "('k \<times> 'v) list \<Rightarrow> 'k \<Rightarrow> 'v \<Rightarrow> ('k \<times> 'v) list" where
  \<comment> \<open>\<^verbatim>\<open>d[k] = v\<close>: a new key goes to the end, an old key keeps its place\<close>
  "dict_set [] k v = [(k, v)]"
| "dict_set ((k', v') # d) k v = (if k' = k then (k, v) # d else (k', v') # dict_set d k v)"

definition dict_keys :: "('k \<times> 'v) list \<Rightarrow> 'k list" where
  "dict_keys d = map fst d"

subsection \<open>The TOC extractor: \<^verbatim>\<open>extract_chapters_from_toc\<close>\<close>

text \<open>
  The regular-expression engine is the library's.  The model takes the engine applied to
  \<^verbatim>\<open>toc_pattern_numbered\<close> as the parameter \<open>finditer\<close>: it maps a page's text to the
  matches found in it, in order, each match being its three groups.
\<close>

type_synonym toc_match = "string \<times> string \<times> string"

datatype toc_message = TocSuccess nat | TocNoPatterns | TocFileNotFound | TocException

definition toc_match_step :: "(string \<times> int) list \<Rightarrow> toc_match \<Rightarrow> (string \<times> int) list option" where
  \<comment> \<open>the body of the loop over the matches; \<open>None\<close> is an exception\<close>
  "toc_match_step extracted_chapters m =
     (case m of (g1, g2, g3) \<Rightarrow>
        let chapter_number = strip g1;
            title = strip g2
        in case py_int g3 of
             None \<Rightarrow> None
           | Some printed_page \<Rightarrow>
               let full_title_key = chapter_number @ '' '' @ title
               in if 5 < length title \<and> 1 < printed_page \<and>
                     full_title_key \<notin> set (dict_keys extracted_chapters)
                  then Some (dict_set extracted_chapters full_title_key printed_page)
                  else Some extracted_chapters)"

fun toc_matches_loop :: "(string \<times> int) list \<Rightarrow> toc_match list \<Rightarrow> (string \<times> int) list option" where
  "toc_matches_loop extracted_chapters [] = Some extracted_chapters"
| "toc_matches_loop extracted_chapters (m # ms) =
     (case toc_match_step extracted_chapters m of
        None \<Rightarrow> None
      | Some extracted_chapters' \<Rightarrow> toc_matches_loop extracted_chapters' ms)"

fun toc_pages_loop ::
  "(string \<Rightarrow> toc_match list) \<Rightarrow> (string \<times> int) list \<Rightarrow> 'f page list \<Rightarrow> (string \<times> int) list option"
where
  "toc_pages_loop finditer extracted_chapters [] = Some extracted_chapters"
| "toc_pages_loop finditer extracted_chapters (p # ps) =
     (if page_text_raw p = [] then toc_pages_loop finditer extracted_chapters ps
      else case toc_matches_loop extracted_chapters (finditer (page_text_raw p)) of
             None \<Rightarrow> None
           | Some extracted_chapters' \<Rightarrow> toc_pages_loop finditer extracted_chapters' ps)"

definition extract_chapters_from_toc ::
  "(string \<Rightarrow> toc_match list) \<Rightarrow> bool \<Rightarrow> 'f pdf \<Rightarrow> int \<Rightarrow>
   (string \<times> int) list option \<times> toc_message list"
where
  \<comment> \<open>the returned value and the diagnostic lines printed; the pages read are
      \<^verbatim>\<open>pdf.pages[i]\<close> for \<^verbatim>\<open>i in range(min(pages_to_scan, len(pdf.pages)))\<close>\<close>
  "extract_chapters_from_toc finditer pdfplumber pdf pages_to_scan =
     (if \<not> pdfplumber then (None, [])
      else case pdf of
             FileMissing \<Rightarrow> (None, [TocFileNotFound])
           | Unreadable \<Rightarrow> (None, [TocException])
           | Pdf pages \<Rightarrow>
               let scan_limit = min pages_to_scan (int (length pages))
               in case toc_pages_loop finditer [] (take (nat scan_limit) pages) of
                    None \<Rightarrow> (None, [TocException])
                  | Some extracted_chapters \<Rightarrow>
                      if extracted_chapters \<noteq> []
                      then let sorted_chapters = sort_key snd extracted_chapters
                           in (Some sorted_chapters, [TocSuccess (length sorted_chapters)])
                      else (None, [TocNoPatterns]))"

datatype 'a run = SysExit string | Continue 'a

definition toc_stage :: "(string \<times> int) list option \<Rightarrow> (string \<times> int) list run" where
  \<comment> \<open>the caller: \<^verbatim>\<open>if not PRINTED_CHAPTER_STARTS: sys.exit(...)\<close>\<close>
  "toc_stage printed_chapter_starts =
     (case printed_chapter_starts of
        None \<Rightarrow> SysExit ''Automatic TOC extraction failed.''
      | Some [] \<Rightarrow> SysExit ''Automatic TOC extraction failed.''
      | Some (c # cs) \<Rightarrow> Continue (c # cs))"

subsection \<open>The range mapper: \<^verbatim>\<open>map_starts_to_ranges\<close>\<close>

definition range_step ::
  "(string \<times> int) list \<Rightarrow> int \<Rightarrow> (string \<times> int \<times> int) list \<Rightarrow> nat \<Rightarrow> (string \<times> int \<times> int) list"
where
  \<comment> \<open>round \<open>i\<close> of the loop on the state \<open>final_map\<close>\<close>
  "range_step sorted_items last_printed_page final_map i =
     (case sorted_items ! i of (title, start_page) \<Rightarrow>
        let end_page =
              (if int i < int (length sorted_items) - 1
               then snd (sorted_items ! (i + 1)) - 1
               else last_printed_page)
        in if start_page \<le> end_page then dict_set final_map title (start_page, end_page)
           else final_map)"

definition map_starts_to_ranges ::
  "(string \<times> int) list \<Rightarrow> int \<Rightarrow> (string \<times> int \<times> int) list"
where
  "map_starts_to_ranges chapter_starts last_printed_page =
     (let sorted_items = sort_key snd chapter_starts
      in foldl (range_step sorted_items last_printed_page) [] [0 ..< length sorted_items])"

subsection \<open>The splitter: \<^verbatim>\<open>split_pdf_by_chapters\<close>\<close>

definition filename_match :: "string \<Rightarrow> (string \<times> string) option" where
  \<comment> \<open>groups 1 and 2 of \<^verbatim>\<open>re.match(r"^([\d\.]+)\s*(.*)$", title_with_num)\<close>\<close>
  "filename_match t =
     (let g1 = takeWhile (\<lambda>c. isdigit c \<or> c = CHR ''.'') t;
          r = dropWhile isspace (dropWhile (\<lambda>c. isdigit c \<or> c = CHR ''.'') t);
          g2 = (if r \<noteq> [] \<and> last r = CHR 0x0A then butlast r else r)
      in if g1 = [] \<or> CHR 0x0A \<in> set g2 then None else Some (g1, g2))"

definition safe_title_part_of :: "string \<Rightarrow> string" where
  "safe_title_part_of clean_title =
     strip (map (\<lambda>c. if isalnum c \<or> c \<in> {CHR '' '', CHR ''_'', CHR ''-''} then c else CHR ''_'')
              clean_title)"

definition output_filename_of :: "string \<Rightarrow> string" where
  "output_filename_of title_with_num =
     (let (num_prefix, clean_title) =
            (case filename_match title_with_num of
               Some (g1, g2) \<Rightarrow> (strip g1, strip g2)
             | None \<Rightarrow> ([], title_with_num));
          safe_title_part = safe_title_part_of clean_title
      in if num_prefix \<noteq> [] then num_prefix @ ''_'' @ safe_title_part @ ''.pdf''
         else safe_title_part @ ''.pdf'')"

definition output_path_of :: "string \<Rightarrow> string" where
  "output_path_of title_with_num = ''chapters_output/'' @ output_filename_of title_with_num"

definition invalid_range :: "int \<Rightarrow> int \<Rightarrow> int \<Rightarrow> bool" where
  \<comment> \<open>\<^verbatim>\<open>file_start < 1 or file_end > total_pages or file_start > file_end\<close>\<close>
  "invalid_range total_pages file_start file_end =
     (file_start < 1 \<or> total_pages < file_end \<or> file_end < file_start)"

datatype split_event =
    InputNotFound
  | WarningSkipping string int int
  | Created string int int
  | SplittingComplete
  | ErrorOccurred

fun split_loop ::
  "(string \<Rightarrow> bool) \<Rightarrow> int \<Rightarrow> (string \<times> int \<times> int) list \<Rightarrow> split_event list \<Rightarrow> split_event list"
where
  \<comment> \<open>the loop over \<^verbatim>\<open>chapter_pages.items()\<close>.  \<open>writable path\<close> tells whether the PDF
      writer succeeds on \<open>path\<close>; a failed write raises, which ends the loop in the
      function's handler.  \<open>Created path file_start file_end\<close> is the file written from the
      physical pages \<open>file_start\<close> to \<open>file_end\<close>.\<close>
  "split_loop writable total_pages [] events = events @ [SplittingComplete]"
| "split_loop writable total_pages ((title_with_num, file_start, file_end) # rest) events =
     (let output_path = output_path_of title_with_num
      in if invalid_range total_pages file_start file_end
         then split_loop writable total_pages rest
                (events @ [WarningSkipping title_with_num file_start file_end])
         else if \<not> writable output_path then events @ [ErrorOccurred]
         else split_loop writable total_pages rest
                (events @ [Created output_path file_start file_end]))"

definition split_pdf_by_chapters ::
  "(string \<Rightarrow> bool) \<Rightarrow> 'f pdf \<Rightarrow> (string \<times> int \<times> int) list \<Rightarrow> split_event list"
where
  "split_pdf_by_chapters writable pdf chapter_pages =
     (case pdf of
        FileMissing \<Rightarrow> [InputNotFound]
      | Unreadable \<Rightarrow> [ErrorOccurred]
      | Pdf pages \<Rightarrow> split_loop writable (int (length pages)) chapter_pages [])"

subsection \<open>The manual offset fallback and the projection to file pages\<close>

definition FIRST_PRINTED_PAGE_NUMBER :: int where
  "FIRST_PRINTED_PAGE_NUMBER = 1"

datatype input_error = EOFError

fun prompt_loop :: "string list \<Rightarrow> input_error + (int \<times> string list)" where
  \<comment> \<open>the \<^verbatim>\<open>while MANUAL_FALLBACK_FILE_PAGE is None\<close> loop on the lines of standard input
      still unread; it returns the accepted page and the lines left unread\<close>
  "prompt_loop [] = Inl EOFError"
| "prompt_loop (user_input # rest) =
     (case py_int (strip user_input) of
        None \<Rightarrow> prompt_loop rest
      | Some n \<Rightarrow> if n < 1 then prompt_loop rest else Inr (n, rest))"

definition anchor_printed_page_of :: "string \<Rightarrow> int \<Rightarrow> int" where
  "anchor_printed_page_of first_chapter_title first_chapter_printed_page =
     (if first_chapter_title \<noteq> [] \<and> FIRST_PRINTED_PAGE_NUMBER < first_chapter_printed_page
      then first_chapter_printed_page
      else FIRST_PRINTED_PAGE_NUMBER)"

definition manual_fallback :: "string \<Rightarrow> int \<Rightarrow> string list \<Rightarrow> input_error + (int \<times> string list)" where
  \<comment> \<open>the block under \<^verbatim>\<open>if FALLBACK_TO_MANUAL\<close>: the page offset and the input left unread\<close>
  "manual_fallback first_chapter_title first_chapter_printed_page inputs =
     (let anchor_printed_page =
            anchor_printed_page_of first_chapter_title first_chapter_printed_page
      in if first_chapter_title = ''1 Error Handling'' \<and> anchor_printed_page = 3
         then Inr (27 - anchor_printed_page, inputs)
         else case prompt_loop inputs of
                Inl e \<Rightarrow> Inl e
              | Inr (manual_fallback_file_page, rest) \<Rightarrow>
                  Inr (manual_fallback_file_page - anchor_printed_page, rest))"

definition resolve_page_offset ::
  "(int \<times> int) option \<Rightarrow> string \<Rightarrow> int \<Rightarrow> string list \<Rightarrow> input_error + (int \<times> string list)"
where
  \<comment> \<open>the offset comes from the scan when it returned a result, from the manual
      fallback otherwise\<close>
  "resolve_page_offset scan_result first_chapter_title first_chapter_printed_page inputs =
     (case scan_result of
        Some (page_offset, file_page_of_title) \<Rightarrow> Inr (page_offset, inputs)
      | None \<Rightarrow> manual_fallback first_chapter_title first_chapter_printed_page inputs)"

definition last_printed_page_of :: "nat \<Rightarrow> int \<Rightarrow> int" where
  \<comment> \<open>\<^verbatim>\<open>len(temp_reader.pages) - PAGE_OFFSET\<close>\<close>
  "last_printed_page_of total_pages page_offset = int total_pages - page_offset"

definition file_chapter_map_of ::
  "int \<Rightarrow> (string \<times> int \<times> int) list \<Rightarrow> (string \<times> int \<times> int) list"
where
  "file_chapter_map_of page_offset printed_chapter_map_ranges =
     foldl (\<lambda>file_chapter_map (title, printed_start, printed_end).
              dict_set file_chapter_map title
                (printed_start + page_offset, printed_end + page_offset))
       [] printed_chapter_map_ranges"

definition project_chapters :: "nat \<Rightarrow> int \<Rightarrow> (string \<times> int) list \<Rightarrow> (string \<times> int \<times> int) list" where
  \<comment> \<open>steps 4 and 5 of the main flow: printed ranges, then file ranges\<close>
  "project_chapters total_pages page_offset printed_chapter_starts =
     file_chapter_map_of page_offset
       (map_starts_to_ranges printed_chapter_starts
          (last_printed_page_of total_pages page_offset))"

subsection \<open>Reference definitions and sample data for the theorems\<close>

text \<open>
  The definitions of this subsection are not part of the program.  \<open>large_runs\<close> and
  \<open>block_text\<close> say in the specification's words what the text blocks of a page are;
  \<open>ranges_of_sorted\<close> is the recursive reading of the range mapper's loop; the rest
  is sample data on which the theorems are instantiated.
\<close>

function large_runs :: "('a \<Rightarrow> bool) \<Rightarrow> 'a list \<Rightarrow> 'a list list" where
  \<comment> \<open>the maximal runs of consecutive elements that satisfy \<open>P\<close>, in order\<close>
  "large_runs P [] = []"
| "large_runs P (x # xs) =
     (if P x then (x # takeWhile P xs) # large_runs P (dropWhile P xs) else large_runs P xs)"
  by pat_completeness auto
termination
  by (relation "measure (\<lambda>(P, xs). length xs)") (auto simp: length_dropWhile_le less_Suc_eq_le)

definition block_text :: "'f word list \<Rightarrow> string" where
  \<comment> \<open>the text of a run of words: each word followed by a space, the whole stripped\<close>
  "block_text run = strip (concat (map (\<lambda>w. wtext w @ '' '') run))"

fun ranges_of_sorted :: "int \<Rightarrow> (string \<times> int) list \<Rightarrow> (string \<times> int \<times> int) list" where
  "ranges_of_sorted last_printed_page [] = []"
| "ranges_of_sorted last_printed_page [(title, start_page)] =
     (if start_page \<le> last_printed_page then [(title, start_page, last_printed_page)] else [])"
| "ranges_of_sorted last_printed_page ((title, start_page) # (title', next_start_page) # rest) =
     (if start_page \<le> next_start_page - 1 then [(title, start_page, next_start_page - 1)] else []) @
     ranges_of_sorted last_printed_page ((title', next_start_page) # rest)"

definition toc_page :: "rat page" where
  "toc_page =
     \<lparr>words = [\<lparr>wtext = ''1'', wsize = Some 10\<rparr>, \<lparr>wtext = ''Error'', wsize = Some 10\<rparr>,
               \<lparr>wtext = ''Handling'', wsize = Some 10\<rparr>, \<lparr>wtext = ''3'', wsize = Some 10\<rparr>],
      page_text_raw = ''1 Error Handling 3''\<rparr>"

definition blank_page :: "rat page" where
  "blank_page = \<lparr>words = [], page_text_raw = ''''\<rparr>"

definition teaser_page :: "rat page" where
  "teaser_page =
     \<lparr>words = [\<lparr>wtext = ''Error'', wsize = Some 24\<rparr>, \<lparr>wtext = ''Handling!'', wsize = Some 24\<rparr>,
               \<lparr>wtext = ''coming'', wsize = Some 10\<rparr>, \<lparr>wtext = ''up'', wsize = Some 10\<rparr>,
               \<lparr>wtext = ''next'', wsize = Some 10\<rparr>, \<lparr>wtext = ''ii'', wsize = None\<rparr>],
      page_text_raw = ''Error Handling! coming up next ii''\<rparr>"

definition opening_page :: "rat page" where
  "opening_page =
     \<lparr>words = [\<lparr>wtext = ''Error'', wsize = Some 24\<rparr>, \<lparr>wtext = ''Handling'', wsize = Some 24\<rparr>,
               \<lparr>wtext = ''body'', wsize = Some 10\<rparr>, \<lparr>wtext = ''text'', wsize = Some 10\<rparr>,
               \<lparr>wtext = ''here'', wsize = Some 10\<rparr>, \<lparr>wtext = ''END'', wsize = Some 15\<rparr>,
               \<lparr>wtext = ''3'', wsize = Some 8\<rparr>],
      page_text_raw = ''Error Handling body text here END 3''\<rparr>"

definition unsized_page :: "rat page" where
  "unsized_page = \<lparr>words = [\<lparr>wtext = ''scanned'', wsize = None\<rparr>], page_text_raw = ''scanned''\<rparr>"

definition page_84 :: "rat page" where
  \<comment> \<open>body text of size 8.4, one word of size 12.6\<close>
  "page_84 =
     \<lparr>words = [\<lparr>wtext = ''Title'', wsize = Some (to_double (126 / 10))\<rparr>,
               \<lparr>wtext = ''one'', wsize = Some (to_double (84 / 10))\<rparr>,
               \<lparr>wtext = ''two'', wsize = Some (to_double (84 / 10))\<rparr>],
      page_text_raw = ''Title one two''\<rparr>"

definition page_34 :: "rat page" where
  \<comment> \<open>body text of size 3.4, one word of size 5.1\<close>
  "page_34 =
     \<lparr>words = [\<lparr>wtext = ''Title'', wsize = Some (to_double (51 / 10))\<rparr>,
               \<lparr>wtext = ''one'', wsize = Some (to_double (34 / 10))\<rparr>,
               \<lparr>wtext = ''two'', wsize = Some (to_double (34 / 10))\<rparr>],
      page_text_raw = ''Title one two''\<rparr>"

definition sample_pages :: "rat page list" where
  "sample_pages = [toc_page, blank_page, teaser_page, opening_page]"

definition sample_starts :: "(string \<times> int) list" where
  "sample_starts = [(''2 Basics'', 20), (''1 Introduction'', 3)]"

definition sample_file_map :: "(string \<times> int \<times> int) list" where
  "sample_file_map =
     [(''0 Preface'', 0, 2), (''1 Introduction'', 2, 3), (''2 Basics'', 4, 64), (''3 More'', 4, 3),
      (''4 Last'', 4, 4)]"

definition accepted_entry :: "toc_match \<Rightarrow> (string \<times> int) option" where
  \<comment> \<open>the entry a match stands for when it passes the filter: its label and printed page\<close>
  "accepted_entry m =
     (case m of (g1, g2, g3) \<Rightarrow>
        case py_int g3 of
          None \<Rightarrow> None
        | Some printed_page \<Rightarrow>
            if 5 < length (strip g2) \<and> 1 < printed_page
            then Some (strip g1 @ '' '' @ strip g2, printed_page)
            else None)"

definition scanned_matches :: "(string \<Rightarrow> toc_match list) \<Rightarrow> 'f page list \<Rightarrow> int \<Rightarrow> toc_match list" where
  \<comment> \<open>the matches of the scanned pages that have text, in the order of the scan\<close>
  "scanned_matches finditer pages pages_to_scan =
     concat (map (\<lambda>p. finditer (page_text_raw p))
               (filter (\<lambda>p. page_text_raw p \<noteq> [])
                  (take (nat (min pages_to_scan (int (length pages)))) pages)))"

definition sample_finditer :: "string \<Rightarrow> toc_match list" where
  "sample_finditer t =
     (if t = ''1 Error Handling 3''
      then [(''2'', ''Basics of it'', ''20''), (''1'', ''Error Handling'', ''3''),
            (''1'', ''Error Handling'', ''5''), (''3'', ''Abc'', ''9''),
            (''4'', ''Front matter'', ''1'')]
      else [])"

section \<open>Theorems\<close>

subsection \<open>The scanner: counting sizes, text blocks, the page loop\<close>

lemma map_of_counter_add:
  "map_of (counter_add x c) y =
     (if y = x then Some (case map_of c x of None \<Rightarrow> 1 | Some n \<Rightarrow> n + 1) else map_of c y)"
  by (induction c) (auto split: option.splits)

lemma keys_counter_add: "fst ` set (counter_add x c) = insert x (fst ` set c)"
proof (induction c)
  case Nil
  then show ?case by simp
next
  case (Cons e c)
  obtain y n where e: "e = (y, n)" by (cases e)
  show ?case
    by (cases "x = y") (simp_all add: e Cons.IH insert_commute)
qed

lemma distinct_counter_add:
  "distinct (map fst c) \<Longrightarrow> distinct (map fst (counter_add x c))"
proof (induction c)
  case Nil
  then show ?case by simp
next
  case (Cons e c)
  obtain y n where e: "e = (y, n)" by (cases e)
  from Cons show ?case
    using keys_counter_add [of x c] by (auto simp: e)
qed

lemma map_of_counter_foldl:
  "map_of (foldl (\<lambda>c x. counter_add x c) c xs) y =
     (case map_of c y of
        None \<Rightarrow> if count_list xs y = 0 then None else Some (count_list xs y)
      | Some n \<Rightarrow> Some (n + count_list xs y))"
  by (induction xs arbitrary: c) (auto simp: map_of_counter_add split: option.splits)

lemma distinct_counter_foldl:
  "distinct (map fst c) \<Longrightarrow> distinct (map fst (foldl (\<lambda>c x. counter_add x c) c xs))"
  by (induction xs arbitrary: c) (auto simp: distinct_counter_add)

lemma map_of_Counter:
  "map_of (Counter xs) y = (if count_list xs y = 0 then None else Some (count_list xs y))"
  by (simp add: Counter_def map_of_counter_foldl)

lemma distinct_Counter: "distinct (map fst (Counter xs))"
  by (simp add: Counter_def distinct_counter_foldl)

lemma Counter_entry:
  "(y, n) \<in> set (Counter xs) \<longleftrightarrow> n = count_list xs y \<and> 0 < n"
proof -
  have "(y, n) \<in> set (Counter xs) \<longleftrightarrow> map_of (Counter xs) y = Some n"
    using distinct_Counter [of xs] by (auto intro: map_of_is_SomeI dest: map_of_SomeD)
  then show ?thesis
    by (auto simp: map_of_Counter)
qed

lemma max_count_mem: "max_count best es \<in> set (best # es)"
  by (induction es arbitrary: best) auto

lemma max_count_ge: "e \<in> set (best # es) \<Longrightarrow> snd e \<le> snd (max_count best es)"
proof (induction es arbitrary: best e)
  case Nil
  then show ?case by simp
next
  case (Cons a es)
  define b where "b = (if snd best < snd a then a else best)"
  have b: "snd best \<le> snd b" "snd a \<le> snd b"
    by (simp_all add: b_def)
  have top: "snd b \<le> snd (max_count b es)"
    by (rule Cons.IH) simp
  have "snd e \<le> snd (max_count b es)"
  proof (cases "e \<in> set es")
    case True
    then show ?thesis by (intro Cons.IH) simp
  next
    case False
    with Cons.prems have "e = best \<or> e = a" by auto
    with b top show ?thesis by auto
  qed
  then show ?case by (simp add: b_def)
qed

lemma baseline_size_of_mode:
  assumes "sizes \<noteq> []"
  shows "\<exists>b. baseline_size_of sizes = Some b \<and> b \<in> set sizes \<and>
             (\<forall>s. count_list sizes s \<le> count_list sizes b)"
proof -
  obtain x xs where sizes: "sizes = x # xs" using assms by (cases sizes) auto
  have "0 < count_list sizes x" by (simp add: sizes)
  then have "(x, count_list sizes x) \<in> set (Counter sizes)" by (simp add: Counter_entry)
  then obtain e es where c: "Counter sizes = e # es" by (cases "Counter sizes") auto
  define m where "m = max_count e es"
  have bs: "baseline_size_of sizes = Some (fst m)"
    by (simp add: baseline_size_of_def most_common_1_def c m_def)
  have "m \<in> set (Counter sizes)" using max_count_mem [of e es] by (simp add: c m_def)
  moreover obtain b n where mb: "m = (b, n)" by (cases m)
  ultimately have m: "snd m = count_list sizes (fst m)" "0 < snd m"
    by (simp_all add: Counter_entry)
  then have mem: "fst m \<in> set sizes" 
    by (metis count_list_0_iff less_numeral_extra(3))
  have "count_list sizes s \<le> count_list sizes (fst m)" for s
  proof (cases "count_list sizes s = 0")
    case True
    then show ?thesis by simp
  next
    case False
    then have "(s, count_list sizes s) \<in> set (e # es)" by (simp add: Counter_entry flip: c)
    from max_count_ge [OF this] show ?thesis by (simp add: m flip: m_def)
  qed
  with bs mem show ?thesis by blast
qed

lemma block_loop_runs:
  "(case foldl (block_step round1 thr) (cur, blocks) ws of
      (current_block, large_text_blocks) \<Rightarrow>
        if current_block \<noteq> [] then large_text_blocks @ [strip current_block]
        else large_text_blocks) =
   (if cur = [] then blocks @ map block_text (large_runs (is_large round1 thr) ws)
    else blocks @
      [strip (cur @ concat (map (\<lambda>w. wtext w @ '' '') (takeWhile (is_large round1 thr) ws)))] @
      map block_text (large_runs (is_large round1 thr) (dropWhile (is_large round1 thr) ws)))"
proof (induction ws arbitrary: cur blocks)
  case Nil
  then show ?case by simp
next
  case (Cons w ws)
  show ?case
  proof (cases "is_large round1 thr w")
    case True
    then have step: "block_step round1 thr (cur, blocks) w = (cur @ wtext w @ '' '', blocks)"
      by (simp add: block_step_def)
    show ?thesis
      unfolding foldl_Cons step Cons.IH
      using True by (simp add: block_text_def)
  next
    case False
    then have step: "block_step round1 thr (cur, blocks) w =
        (if cur \<noteq> [] then ([], blocks @ [strip cur]) else (cur, blocks))"
      by (simp add: block_step_def)
    show ?thesis
    proof (cases "cur = []")
      case True
      show ?thesis
        unfolding foldl_Cons step
        using True False by (simp add: Cons.IH)
    next
      case nonempty: False
      show ?thesis
        unfolding foldl_Cons step
        using nonempty False by (simp add: Cons.IH)
    qed
  qed
qed

lemma large_text_blocks_runs:
  "large_text_blocks_of round1 thr ws = map block_text (large_runs (is_large round1 thr) ws)"
  using block_loop_runs [of round1 thr "[]" "[]" ws]
  by (simp add: large_text_blocks_of_def)

lemma baseline_size_of_Some: "sizes \<noteq> [] \<Longrightarrow> \<exists>b. baseline_size_of sizes = Some b"
  using baseline_size_of_mode by blast

lemma check_page_not_Raised: "check_page round1 times_1_5 k n p \<noteq> Raised"
proof (cases "sized_words_of (words p) = []")
  case True
  then show ?thesis by (simp add: check_page_def)
next
  case False
  then obtain b where
    "baseline_size_of (map (\<lambda>w. round1 (the (wsize w))) (sized_words_of (words p))) = Some b"
    using baseline_size_of_Some [of "map (\<lambda>w. round1 (the (wsize w))) (sized_words_of (words p))"]
    by auto
  then show ?thesis by (simp add: check_page_def Let_def)
qed

lemma scan_pages_find:
  "fst (scan_pages round1 times_1_5 k n pages printed is visited) =
     (case find (\<lambda>i. check_page round1 times_1_5 k n (pages ! i) = Checked True True) is of
        None \<Rightarrow> None
      | Some i \<Rightarrow> Some (int i + 1 - printed, int i + 1))"
proof (induction "is" arbitrary: visited)
  case Nil
  then show ?case by simp
next
  case (Cons i "is")
  show ?case
  proof (cases "check_page round1 times_1_5 k n (pages ! i)")
    case Skipped
    then show ?thesis by (simp add: Cons.IH Let_def)
  next
    case Raised
    then show ?thesis by (simp add: check_page_not_Raised)
  next
    case (Checked tf pf)
    then show ?thesis by (simp add: Cons.IH Let_def)
  qed
qed

lemma scan_pages_visited:
  "\<exists>m \<le> length is. snd (scan_pages round1 times_1_5 k n pages printed is visited) =
     visited @ map (\<lambda>i. int i + 1) (take m is)"
proof (induction "is" arbitrary: visited)
  case Nil
  then show ?case by simp
next
  case (Cons i "is")
  obtain m where m: "m \<le> length is"
    "snd (scan_pages round1 times_1_5 k n pages printed is (visited @ [int i + 1])) =
       (visited @ [int i + 1]) @ map (\<lambda>i. int i + 1) (take m is)"
    using Cons.IH [of "visited @ [int i + 1]"] by blast
  have stop: "\<exists>m \<le> length (i # is). visited @ [int i + 1] =
       visited @ map (\<lambda>i. int i + 1) (take m (i # is))"
    by (rule exI [of _ 1]) simp
  have go: "\<exists>m' \<le> length (i # is).
       snd (scan_pages round1 times_1_5 k n pages printed is (visited @ [int i + 1])) =
       visited @ map (\<lambda>i. int i + 1) (take m' (i # is))"
    by (rule exI [of _ "Suc m"]) (simp add: m)
  show ?case
    using stop go
    by (cases "check_page round1 times_1_5 k n (pages ! i)") (simp_all add: Let_def)
qed

lemma find_upt_Some:
  "find P [a..<b] = Some i \<longleftrightarrow> a \<le> i \<and> i < b \<and> P i \<and> (\<forall>j. a \<le> j \<and> j < i \<longrightarrow> \<not> P j)"
proof -
  have "find P [a..<b] = Some i \<longleftrightarrow>
      (\<exists>k<b - a. P (a + k) \<and> i = a + k \<and> (\<forall>j<k. \<not> P (a + j)))"
    by (simp add: find_Some_iff cong: conj_cong)
  also have "\<dots> \<longleftrightarrow> a \<le> i \<and> i < b \<and> P i \<and> (\<forall>j. a \<le> j \<and> j < i \<longrightarrow> \<not> P j)"
  proof
    assume "\<exists>k<b - a. P (a + k) \<and> i = a + k \<and> (\<forall>j<k. \<not> P (a + j))"
    then obtain k where k: "k < b - a" "P (a + k)" "i = a + k" "\<forall>j<k. \<not> P (a + j)" by blast
    have "\<not> P j" if "a \<le> j" "j < i" for j
    proof -
      from that k(3) have "j - a < k" by arith
      with k(4) have "\<not> P (a + (j - a))" by blast
      with that show ?thesis by simp
    qed
    with k show "a \<le> i \<and> i < b \<and> P i \<and> (\<forall>j. a \<le> j \<and> j < i \<longrightarrow> \<not> P j)" by auto
  next
    assume r: "a \<le> i \<and> i < b \<and> P i \<and> (\<forall>j. a \<le> j \<and> j < i \<longrightarrow> \<not> P j)"
    show "\<exists>k<b - a. P (a + k) \<and> i = a + k \<and> (\<forall>j<k. \<not> P (a + j))"
      by (rule exI [of _ "i - a"]) (use r in auto)
  qed
  finally show ?thesis .
qed

lemma find_upt_None: "find P [a..<b] = None \<longleftrightarrow> (\<forall>j. a \<le> j \<and> j < b \<longrightarrow> \<not> P j)"
  by (auto simp: find_None_iff)

lemma map_succ_upt: "map (\<lambda>i. int i + 1) [a..<a + m] = [int a + 1 .. int a + int m]"
proof (induction m)
  case 0
  then show ?case by simp
next
  case (Suc m)
  have "[int a + 1 .. int a + int (Suc m)] = [int a + 1 .. int a + int m] @ [int a + int m + 1]"
    using upto_rec2 [of "int a + 1" "int a + int (Suc m)"] by (simp add: add.commute add.left_commute)
  with Suc show ?case by (simp add: add.commute add.left_commute)
qed

lemma take_upt_le: "m \<le> b - a \<Longrightarrow> take m [a..<b] = [a..<a + m]"
  by (cases "a \<le> b") auto

lemma length_scan_range: "length (scan_range toc_end n) \<le> 50"
  by (simp add: scan_range_def Let_def)

lemma scan_range_upt:
  "scan_range toc_end n =
     [nat (max 0 toc_end) ..< nat (min (max 0 toc_end + 50) (int n))]"
  by (simp add: scan_range_def Let_def)

lemma check_page_Checked:
  assumes "check_page round1 times_1_5 k n p = Checked tf pf"
  shows "\<exists>b. baseline_size_of (map (\<lambda>w. round1 (the (wsize w))) (sized_words_of (words p))) = Some b \<and>
             tf = title_found_in k
                    (large_text_blocks_of round1 (times_1_5 b) (sized_words_of (words p))) \<and>
             pf = py_in n (page_text_raw p)"
  using assms
  by (auto simp: check_page_def Let_def split: if_splits option.splits)

lemma check_page_sized:
  assumes "sized_words_of (words p) \<noteq> []"
    and "baseline_size_of (map (\<lambda>w. round1 (the (wsize w))) (sized_words_of (words p))) = Some b"
  shows "check_page round1 times_1_5 k n p =
           Checked (title_found_in k
                      (large_text_blocks_of round1 (times_1_5 b) (sized_words_of (words p))))
                   (py_in n (page_text_raw p))"
proof -
  from assms(1) have "words p \<noteq> []" by (auto simp: sized_words_of_def)
  with assms show ?thesis by (simp add: check_page_def Let_def)
qed

lemma check_page_unsized:
  "sized_words_of (words p) = [] \<Longrightarrow> check_page round1 times_1_5 k n p = Skipped"
  by (simp add: check_page_def Let_def)

lemma find_offset_fst:
  assumes "pdfplumber" and "clean_title_of chapter_title \<noteq> []"
  shows "fst (find_offset_by_title_scan round1 times_1_5 pdfplumber (Pdf pages) chapter_title
                printed toc_end) =
         (case find (\<lambda>i. check_page round1 times_1_5 (search_key_of (clean_title_of chapter_title))
                            (str_int printed) (pages ! i) = Checked True True)
                 (scan_range toc_end (length pages)) of
            None \<Rightarrow> None
          | Some i \<Rightarrow> Some (int i + 1 - printed, int i + 1))"
  using assms by (simp add: find_offset_by_title_scan_def Let_def scan_pages_find)

lemma find_upt_Some_set:
  "find P [a..<b] = Some i \<longleftrightarrow>
     i \<in> set [a..<b] \<and> P i \<and> (\<forall>j \<in> set [a..<b]. j < i \<longrightarrow> \<not> P j)"
  unfolding find_upt_Some by auto

text \<open>
  Claim C1.  When the scanner runs (the text library is present, the cleaned title is not
  empty, the document opens), it returns \<open>Some (off, fp)\<close> exactly when \<open>fp\<close> is the
  1-indexed file page of the first page of the scan range on which both checks succeed,
  and then \<open>off = fp - printed_start_page\<close>.  Both checks are the flags of
  \<open>check_page\<close>: the first says that the search key occurs in the normalised text of a
  block of large words, the second that the decimal string of the printed start page
  occurs in the page's raw text.  A page with the title in large font and without the
  page number is therefore never returned, and the pages after it are still scanned.
\<close>

theorem title_scan_first_page_passing_both_checks:
  assumes "pdfplumber" and "clean_title_of chapter_title \<noteq> []"
  shows
    "(\<forall>off fp.
        fst (find_offset_by_title_scan round1 times_1_5 pdfplumber (Pdf pages) chapter_title
               printed_start_page toc_end_file_page) = Some (off, fp) \<longleftrightarrow>
        (\<exists>i \<in> set (scan_range toc_end_file_page (length pages)).
           fp = int i + 1 \<and> off = fp - printed_start_page \<and>
           check_page round1 times_1_5 (search_key_of (clean_title_of chapter_title))
             (str_int printed_start_page) (pages ! i) = Checked True True \<and>
           (\<forall>j \<in> set (scan_range toc_end_file_page (length pages)). j < i \<longrightarrow>
              check_page round1 times_1_5 (search_key_of (clean_title_of chapter_title))
                (str_int printed_start_page) (pages ! j) \<noteq> Checked True True))) \<and>
     (\<forall>p title_found page_number_found.
        check_page round1 times_1_5 (search_key_of (clean_title_of chapter_title))
          (str_int printed_start_page) p = Checked title_found page_number_found \<longrightarrow>
        (\<exists>baseline_size.
           baseline_size_of (map (\<lambda>w. round1 (the (wsize w))) (sized_words_of (words p))) =
             Some baseline_size \<and>
           title_found =
             (\<exists>block \<in> set (large_text_blocks_of round1 (times_1_5 baseline_size)
                                (sized_words_of (words p))).
                py_in (search_key_of (clean_title_of chapter_title)) (block_clean_of block)) \<and>
           page_number_found = py_in (str_int printed_start_page) (page_text_raw p)))"
proof (intro conjI allI impI)
  fix off fp
  define P where "P = (\<lambda>i. check_page round1 times_1_5
      (search_key_of (clean_title_of chapter_title)) (str_int printed_start_page) (pages ! i) =
        Checked True True)"
  define xs where "xs = scan_range toc_end_file_page (length pages)"
  have xs: "xs = [nat (max 0 toc_end_file_page) ..<
                  nat (min (max 0 toc_end_file_page + 50) (int (length pages)))]"
    by (simp add: xs_def scan_range_upt)
  have "fst (find_offset_by_title_scan round1 times_1_5 pdfplumber (Pdf pages) chapter_title
               printed_start_page toc_end_file_page) = Some (off, fp) \<longleftrightarrow>
        (\<exists>i. find P xs = Some i \<and> fp = int i + 1 \<and> off = fp - printed_start_page)"
    by (auto simp: find_offset_fst [OF assms] P_def xs_def split: option.splits)
  also have "\<dots> \<longleftrightarrow>
        (\<exists>i \<in> set xs. fp = int i + 1 \<and> off = fp - printed_start_page \<and> P i \<and>
           (\<forall>j \<in> set xs. j < i \<longrightarrow> \<not> P j))"
    unfolding xs find_upt_Some_set by blast
  finally show "fst (find_offset_by_title_scan round1 times_1_5 pdfplumber (Pdf pages)
                   chapter_title printed_start_page toc_end_file_page) = Some (off, fp) \<longleftrightarrow>
        (\<exists>i \<in> set (scan_range toc_end_file_page (length pages)).
           fp = int i + 1 \<and> off = fp - printed_start_page \<and>
           check_page round1 times_1_5 (search_key_of (clean_title_of chapter_title))
             (str_int printed_start_page) (pages ! i) = Checked True True \<and>
           (\<forall>j \<in> set (scan_range toc_end_file_page (length pages)). j < i \<longrightarrow>
              check_page round1 times_1_5 (search_key_of (clean_title_of chapter_title))
                (str_int printed_start_page) (pages ! j) \<noteq> Checked True True))"
    by (simp only: xs_def P_def)
next
  fix p title_found page_number_found
  assume "check_page round1 times_1_5 (search_key_of (clean_title_of chapter_title))
            (str_int printed_start_page) p = Checked title_found page_number_found"
  from check_page_Checked [OF this]
  show "\<exists>baseline_size.
           baseline_size_of (map (\<lambda>w. round1 (the (wsize w))) (sized_words_of (words p))) =
             Some baseline_size \<and>
           title_found =
             (\<exists>block \<in> set (large_text_blocks_of round1 (times_1_5 baseline_size)
                                (sized_words_of (words p))).
                py_in (search_key_of (clean_title_of chapter_title)) (block_clean_of block)) \<and>
           page_number_found = py_in (str_int printed_start_page) (page_text_raw p)"
    by (simp add: title_found_in_def list_ex_iff)
qed

lemma find_offset_snd_Pdf:
  "\<exists>m \<le> length (scan_range toc_end (length pages)).
     snd (find_offset_by_title_scan round1 times_1_5 pdfplumber (Pdf pages) chapter_title
            printed toc_end) =
       map (\<lambda>i. int i + 1) (take m (scan_range toc_end (length pages)))"
proof (cases "pdfplumber \<and> clean_title_of chapter_title \<noteq> []")
  case True
  obtain m where "m \<le> length (scan_range toc_end (length pages))"
    "snd (scan_pages round1 times_1_5 (search_key_of (clean_title_of chapter_title))
            (str_int printed) pages printed (scan_range toc_end (length pages)) []) =
       [] @ map (\<lambda>i. int i + 1) (take m (scan_range toc_end (length pages)))"
    using scan_pages_visited by blast
  with True show ?thesis
    by (intro exI [of _ m]) (simp add: find_offset_by_title_scan_def Let_def)
next
  case False
  then have "snd (find_offset_by_title_scan round1 times_1_5 pdfplumber (Pdf pages) chapter_title
                    printed toc_end) = []"
    by (auto simp: find_offset_by_title_scan_def Let_def)
  then show ?thesis
    by (intro exI [of _ 0]) simp
qed

lemma find_offset_snd_no_pages:
  "pdf = FileMissing \<or> pdf = Unreadable \<Longrightarrow>
   snd (find_offset_by_title_scan round1 times_1_5 pdfplumber pdf chapter_title printed toc_end) = []"
  by (auto simp: find_offset_by_title_scan_def Let_def)

lemma visited_shape:
  assumes "m \<le> length (scan_range toc_end n)"
    and "visited = map (\<lambda>i. int i + 1) (take m (scan_range toc_end n))"
  shows "length visited \<le> 50"
    and "visited = [max 0 toc_end + 1 .. max 0 toc_end + int (length visited)]"
    and "\<forall>p \<in> set visited. p \<le> int n"
proof -
  define a where "a = nat (max 0 toc_end)"
  define b where "b = nat (min (max 0 toc_end + 50) (int n))"
  have r: "scan_range toc_end n = [a ..< b]"
    by (simp add: scan_range_upt a_def b_def)
  have m: "m \<le> b - a" using assms(1) by (simp add: r)
  have len: "length visited = m"
    using m by (simp add: assms(2) r)
  have "b - a \<le> 50" by (simp add: a_def b_def)
  with m show "length visited \<le> 50" by (simp add: len)
  have v: "visited = [int a + 1 .. int a + int m]"
    using m by (simp add: assms(2) r take_upt_le map_succ_upt)
  have a: "int a = max 0 toc_end" by (simp add: a_def)
  from v show "visited = [max 0 toc_end + 1 .. max 0 toc_end + int (length visited)]"
    by (simp add: a len)
  show "\<forall>p \<in> set visited. p \<le> int n"
  proof
    fix p assume "p \<in> set visited"
    then have p: "int a + 1 \<le> p" "p \<le> int a + int m" by (simp_all add: v)
    then have "0 < m" by simp
    with m have "a + m \<le> b" by simp
    moreover have "int b \<le> int n" by (simp add: b_def)
    ultimately show "p \<le> int n" using p(2) by linarith
  qed
qed

text \<open>
  Claim C6.  The file pages the scanner reads are consecutive, begin right after
  \<open>max 0 toc_end_file_page\<close> (right after the TOC end page when that is not negative),
  number at most 50, and none lies beyond the end of the document.  When no page of the
  scan range passes both checks the function returns \<open>None\<close>.  The function is total:
  every call returns.
\<close>

theorem title_scan_window_bounded:
  "(let visited = snd (find_offset_by_title_scan round1 times_1_5 pdfplumber pdf chapter_title
                         printed_start_page toc_end_file_page)
    in length visited \<le> 50 \<and>
       visited = [max 0 toc_end_file_page + 1 .. max 0 toc_end_file_page + int (length visited)] \<and>
       (0 \<le> toc_end_file_page \<longrightarrow>
          visited = [toc_end_file_page + 1 .. toc_end_file_page + int (length visited)]) \<and>
       (\<forall>pages. pdf = Pdf pages \<longrightarrow> (\<forall>p \<in> set visited. p \<le> int (length pages)))) \<and>
   ((\<forall>pages. pdf = Pdf pages \<longrightarrow>
       (\<forall>i \<in> set (scan_range toc_end_file_page (length pages)).
          check_page round1 times_1_5 (search_key_of (clean_title_of chapter_title))
            (str_int printed_start_page) (pages ! i) \<noteq> Checked True True)) \<longrightarrow>
    fst (find_offset_by_title_scan round1 times_1_5 pdfplumber pdf chapter_title
           printed_start_page toc_end_file_page) = None)"
proof -
  define visited where "visited = snd (find_offset_by_title_scan round1 times_1_5 pdfplumber pdf
    chapter_title printed_start_page toc_end_file_page)"
  have shape: "length visited \<le> 50 \<and>
       visited = [max 0 toc_end_file_page + 1 .. max 0 toc_end_file_page + int (length visited)] \<and>
       (\<forall>pages. pdf = Pdf pages \<longrightarrow> (\<forall>p \<in> set visited. p \<le> int (length pages)))"
  proof (cases pdf)
    case (Pdf pages)
    obtain m where m: "m \<le> length (scan_range toc_end_file_page (length pages))"
      "visited = map (\<lambda>i. int i + 1) (take m (scan_range toc_end_file_page (length pages)))"
      using find_offset_snd_Pdf unfolding visited_def Pdf by blast
    from visited_shape [OF m] show ?thesis by (simp add: Pdf)
  next
    case FileMissing
    then have "visited = []" by (simp add: visited_def find_offset_snd_no_pages)
    with FileMissing show ?thesis by simp
  next
    case Unreadable
    then have "visited = []" by (simp add: visited_def find_offset_snd_no_pages)
    with Unreadable show ?thesis by simp
  qed
  then have nonneg: "0 \<le> toc_end_file_page \<longrightarrow>
      visited = [toc_end_file_page + 1 .. toc_end_file_page + int (length visited)]"
    by (auto simp: max_def)
  have failure: "fst (find_offset_by_title_scan round1 times_1_5 pdfplumber pdf chapter_title
           printed_start_page toc_end_file_page) = None"
    if none: "\<forall>pages. pdf = Pdf pages \<longrightarrow>
       (\<forall>i \<in> set (scan_range toc_end_file_page (length pages)).
          check_page round1 times_1_5 (search_key_of (clean_title_of chapter_title))
            (str_int printed_start_page) (pages ! i) \<noteq> Checked True True)"
  proof (cases "pdfplumber \<and> clean_title_of chapter_title \<noteq> [] \<and> (\<exists>pages. pdf = Pdf pages)")
    case True
    then obtain pages where pdf: "pdf = Pdf pages" by blast
    from none pdf have "find (\<lambda>i. check_page round1 times_1_5
        (search_key_of (clean_title_of chapter_title)) (str_int printed_start_page) (pages ! i) =
          Checked True True) (scan_range toc_end_file_page (length pages)) = None"
      by (simp add: find_None_iff)
    with True show ?thesis
      by (simp add: pdf find_offset_fst)
  next
    case False
    then show ?thesis
      by (cases pdf) (auto simp: find_offset_by_title_scan_def Let_def)
  qed
  from shape nonneg failure show ?thesis
    unfolding visited_def Let_def by blast
qed

lemma round_half_even_near: "\<bar>of_int (round_half_even y) - y\<bar> \<le> 1 / 2"
proof -
  define f where "f = \<lfloor>y\<rfloor>"
  define d where "d = y - of_int f"
  have d: "0 \<le> d" "d < 1" "y = of_int f + d"
    unfolding d_def f_def by linarith+
  have r: "round_half_even y =
      (if d < 1 / 2 then f else if 1 / 2 < d then f + 1 else if even f then f else f + 1)"
    by (simp add: round_half_even_def Let_def f_def d_def)
  show ?thesis
  proof (cases "d < 1 / 2")
    case True
    with d r show ?thesis by simp
  next
    case False
    show ?thesis
    proof (cases "1 / 2 < d")
      case True
      with False d r show ?thesis by simp
    next
      case half: False
      with False have "d = 1 / 2" by simp
      with d r show ?thesis by (cases "even f") simp_all
    qed
  qed
qed

lemma py_round1_one_decimal:
  "\<exists>k :: int. py_round1 x = to_double (of_int k / 10) \<and> \<bar>of_int k / 10 - x\<bar> \<le> 1 / 20"
proof -
  define k where "k = round_half_even (x * 10)"
  have "\<bar>of_int k - x * 10\<bar> \<le> 1 / 2"
    unfolding k_def by (rule round_half_even_near)
  then have "\<bar>of_int k / 10 - x\<bar> \<le> 1 / 20"
    by (simp add: abs_le_iff field_simps)
  moreover have "py_round1 x = to_double (of_int k / 10)"
    by (simp add: py_round1_def k_def)
  ultimately show ?thesis by blast
qed

lemma sized_words_none: "(\<forall>w \<in> set ws. wsize w = None) \<longleftrightarrow> sized_words_of ws = []"
  by (auto simp: sized_words_of_def filter_empty_conv)

lemma is_large_float:
  "is_large py_round1 (float_times_1_5 b) =
     (\<lambda>w. to_double (b * (3 / 2)) \<le> py_round1 (the (wsize w)))"
  by (rule ext) (simp add: is_large_def float_times_1_5_def)

text \<open>
  Claim C7, as amended, for the source's floating-point operations.  A page none of whose
  words carries a size is skipped.  On a page with size-bearing words the baseline is a
  mode of their sizes rounded to one decimal place (it occurs among them and none occurs
  more often); the large words are those whose rounded size is at least the binary64
  product of the baseline and 1.5; the candidate blocks are the maximal runs of
  consecutive large words among the size-bearing words, each run's words joined by
  spaces, and the title flag says that the search key occurs in one of them once
  normalised; the page is checked, never failing.  The last conjunct says what
  \<open>py_round1\<close> computes: the binary64 number of a decimal with one digit after the point
  that lies within 0.05 of the argument.
\<close>

theorem page_font_size_analysis:
  "((\<forall>w \<in> set (words p). wsize w = None) \<longrightarrow>
      check_page py_round1 float_times_1_5 search_key page_number_key p = Skipped) \<and>
   ((\<exists>w \<in> set (words p). wsize w \<noteq> None) \<longrightarrow>
      (\<exists>baseline_size.
         baseline_size_of
           (map (\<lambda>w. py_round1 (the (wsize w))) (filter (\<lambda>w. wsize w \<noteq> None) (words p))) =
           Some baseline_size \<and>
         baseline_size \<in> set (map (\<lambda>w. py_round1 (the (wsize w)))
                                (filter (\<lambda>w. wsize w \<noteq> None) (words p))) \<and>
         (\<forall>s. count_list (map (\<lambda>w. py_round1 (the (wsize w)))
                             (filter (\<lambda>w. wsize w \<noteq> None) (words p))) s \<le>
              count_list (map (\<lambda>w. py_round1 (the (wsize w)))
                             (filter (\<lambda>w. wsize w \<noteq> None) (words p))) baseline_size) \<and>
         check_page py_round1 float_times_1_5 search_key page_number_key p =
           Checked
             (\<exists>run \<in> set (large_runs
                              (\<lambda>w. to_double (baseline_size * (3 / 2)) \<le>
                                   py_round1 (the (wsize w)))
                              (filter (\<lambda>w. wsize w \<noteq> None) (words p))).
                py_in search_key
                  (lower (filter (\<lambda>c. is_word_char c \<or> isspace c)
                            (strip (concat (map (\<lambda>w. wtext w @ '' '') run))))))
             (py_in page_number_key (page_text_raw p)))) \<and>
   (\<forall>x. \<exists>k :: int. py_round1 x = to_double (of_int k / 10) \<and> \<bar>of_int k / 10 - x\<bar> \<le> 1 / 20)"
proof (intro conjI impI)
  assume "\<forall>w \<in> set (words p). wsize w = None"
  then have "sized_words_of (words p) = []" by (simp add: sized_words_none)
  then show "check_page py_round1 float_times_1_5 search_key page_number_key p = Skipped"
    by (rule check_page_unsized)
next
  show "\<forall>x. \<exists>k :: int. py_round1 x = to_double (of_int k / 10) \<and> \<bar>of_int k / 10 - x\<bar> \<le> 1 / 20"
    using py_round1_one_decimal by blast
next
  assume "\<exists>w \<in> set (words p). wsize w \<noteq> None"
  then have ne: "sized_words_of (words p) \<noteq> []"
    by (auto simp: sized_words_of_def filter_empty_conv)
  define sized where "sized = filter (\<lambda>w. wsize w \<noteq> None) (words p)"
  have sized: "sized_words_of (words p) = sized"
    by (simp add: sized_def sized_words_of_def)
  define sizes where "sizes = map (\<lambda>w. py_round1 (the (wsize w))) sized"
  from ne have "sizes \<noteq> []" by (simp add: sizes_def sized)
  from baseline_size_of_mode [OF this] obtain b where
    b: "baseline_size_of sizes = Some b" "b \<in> set sizes"
      "\<forall>s. count_list sizes s \<le> count_list sizes b"
    by blast
  have blocks: "large_text_blocks_of py_round1 (float_times_1_5 b) sized =
      map block_text (large_runs (\<lambda>w. to_double (b * (3 / 2)) \<le> py_round1 (the (wsize w))) sized)"
    by (simp add: large_text_blocks_runs is_large_float)
  have "check_page py_round1 float_times_1_5 search_key page_number_key p =
           Checked
             (title_found_in search_key (large_text_blocks_of py_round1 (float_times_1_5 b) sized))
             (py_in page_number_key (page_text_raw p))"
    using check_page_sized [OF ne, of py_round1 b float_times_1_5 search_key page_number_key] b(1)
    by (simp add: sizes_def sized)
  then have chk: "check_page py_round1 float_times_1_5 search_key page_number_key p =
           Checked
             (\<exists>run \<in> set (large_runs
                              (\<lambda>w. to_double (b * (3 / 2)) \<le> py_round1 (the (wsize w))) sized).
                py_in search_key
                  (lower (filter (\<lambda>c. is_word_char c \<or> isspace c)
                            (strip (concat (map (\<lambda>w. wtext w @ '' '') run))))))
             (py_in page_number_key (page_text_raw p))"
    by (simp add: blocks title_found_in_def list_ex_iff block_clean_of_def block_text_def)
  from b chk show "\<exists>baseline_size.
         baseline_size_of
           (map (\<lambda>w. py_round1 (the (wsize w))) (filter (\<lambda>w. wsize w \<noteq> None) (words p))) =
           Some baseline_size \<and>
         baseline_size \<in> set (map (\<lambda>w. py_round1 (the (wsize w)))
                                (filter (\<lambda>w. wsize w \<noteq> None) (words p))) \<and>
         (\<forall>s. count_list (map (\<lambda>w. py_round1 (the (wsize w)))
                             (filter (\<lambda>w. wsize w \<noteq> None) (words p))) s \<le>
              count_list (map (\<lambda>w. py_round1 (the (wsize w)))
                             (filter (\<lambda>w. wsize w \<noteq> None) (words p))) baseline_size) \<and>
         check_page py_round1 float_times_1_5 search_key page_number_key p =
           Checked
             (\<exists>run \<in> set (large_runs
                              (\<lambda>w. to_double (baseline_size * (3 / 2)) \<le>
                                   py_round1 (the (wsize w)))
                              (filter (\<lambda>w. wsize w \<noteq> None) (words p))).
                py_in search_key
                  (lower (filter (\<lambda>c. is_word_char c \<or> isspace c)
                            (strip (concat (map (\<lambda>w. wtext w @ '' '') run))))))
             (py_in page_number_key (page_text_raw p))"
    unfolding sizes_def sized_def by (intro exI [of _ b]) blast
qed

lemma opening_baseline:
  "baseline_size_of
     (map (\<lambda>w. py_round1 (the (wsize w))) (filter (\<lambda>w. wsize w \<noteq> None) (words opening_page))) =
   Some 10"
  by code_simp

lemma opening_runs:
  "large_runs (\<lambda>w. to_double (10 * (3 / 2)) \<le> py_round1 (the (wsize w)))
     (filter (\<lambda>w. wsize w \<noteq> None) (words opening_page)) =
   [[\<lparr>wtext = ''Error'', wsize = Some 24\<rparr>, \<lparr>wtext = ''Handling'', wsize = Some 24\<rparr>],
    [\<lparr>wtext = ''END'', wsize = Some 15\<rparr>]]"
  by code_simp

text \<open>
  Claim C7 on the sample pages: a page whose only word has no size is skipped; the
  opening page has baseline 10 and two runs of large words, \<open>Error Handling\<close> and
  \<open>END\<close>, the second at exactly 1.5 times the baseline.
\<close>

theorem page_font_size_analysis_witness:
  "check_page py_round1 float_times_1_5 ''error handling'' ''3'' unsized_page = Skipped \<and>
   baseline_size_of
     (map (\<lambda>w. py_round1 (the (wsize w))) (filter (\<lambda>w. wsize w \<noteq> None) (words opening_page))) =
     Some 10 \<and>
   large_runs (\<lambda>w. to_double (10 * (3 / 2)) \<le> py_round1 (the (wsize w)))
     (filter (\<lambda>w. wsize w \<noteq> None) (words opening_page)) =
   [[\<lparr>wtext = ''Error'', wsize = Some 24\<rparr>, \<lparr>wtext = ''Handling'', wsize = Some 24\<rparr>],
    [\<lparr>wtext = ''END'', wsize = Some 15\<rparr>]] \<and>
   check_page py_round1 float_times_1_5 ''error handling'' ''3'' opening_page = Checked True True"
proof -
  have unsized: "\<forall>w \<in> set (words unsized_page). wsize w = None"
    by (simp add: unsized_page_def)
  from page_font_size_analysis [of unsized_page "''error handling''" "''3''"] unsized
  have skipped: "check_page py_round1 float_times_1_5 ''error handling'' ''3'' unsized_page = Skipped"
    by blast
  have sized: "\<exists>w \<in> set (words opening_page). wsize w \<noteq> None"
    by (simp add: opening_page_def)
  from page_font_size_analysis [of opening_page "''error handling''" "''3''"] sized
  obtain b where b:
    "baseline_size_of
       (map (\<lambda>w. py_round1 (the (wsize w))) (filter (\<lambda>w. wsize w \<noteq> None) (words opening_page))) =
     Some b"
    "check_page py_round1 float_times_1_5 ''error handling'' ''3'' opening_page =
       Checked
         (\<exists>run \<in> set (large_runs
                          (\<lambda>w. to_double (b * (3 / 2)) \<le> py_round1 (the (wsize w)))
                          (filter (\<lambda>w. wsize w \<noteq> None) (words opening_page))).
            py_in ''error handling''
              (lower (filter (\<lambda>c. is_word_char c \<or> isspace c)
                        (strip (concat (map (\<lambda>w. wtext w @ '' '') run))))))
         (py_in ''3'' (page_text_raw opening_page))"
    by blast
  have "Some b = Some 10"
    using b(1) opening_baseline by (rule trans [OF sym])
  then have b10: "b = 10" by simp
  have tf: "py_in ''error handling''
              (lower (filter (\<lambda>c. is_word_char c \<or> isspace c)
                        (strip (concat (map (\<lambda>w. wtext w @ '' '')
                           [\<lparr>wtext = ''Error'', wsize = Some (24 :: rat)\<rparr>,
                            \<lparr>wtext = ''Handling'', wsize = Some 24\<rparr>])))))"
    by code_simp
  have pf: "py_in ''3'' (page_text_raw opening_page)"
    by code_simp
  have "check_page py_round1 float_times_1_5 ''error handling'' ''3'' opening_page =
          Checked True True"
    unfolding b(2) b10 opening_runs using tf pf by simp
  with skipped opening_baseline opening_runs show ?thesis by blast
qed

text \<open>
  Claim C7 as stated fails at the boundary, whichever way 1.5 times the baseline is
  read.  With baseline 8.4 a word of rounded size 12.6 is not large, although 12.6 is
  1.5 times 8.4: the binary64 product exceeds 12.6.  With baseline 3.4 a word of
  rounded size 5.1 is large, although the value it holds is below 1.5 times the value
  held for the baseline: the binary64 product is rounded down.
\<close>

theorem large_word_boundary_counterexample:
  "baseline_size_of
     (map (\<lambda>w. py_round1 (the (wsize w))) (filter (\<lambda>w. wsize w \<noteq> None) (words page_84))) =
     Some (to_double (84 / 10)) \<and>
   py_round1 (to_double (126 / 10)) = to_double (126 / 10) \<and>
   (3 / 2) * (84 / 10) \<le> (126 / 10 :: rat) \<and>
   \<not> is_large py_round1 (float_times_1_5 (to_double (84 / 10)))
        \<lparr>wtext = ''Title'', wsize = Some (to_double (126 / 10))\<rparr> \<and>
   large_text_blocks_of py_round1 (float_times_1_5 (to_double (84 / 10)))
     (sized_words_of (words page_84)) = [] \<and>
   baseline_size_of
     (map (\<lambda>w. py_round1 (the (wsize w))) (filter (\<lambda>w. wsize w \<noteq> None) (words page_34))) =
     Some (to_double (34 / 10)) \<and>
   py_round1 (to_double (51 / 10)) = to_double (51 / 10) \<and>
   to_double (51 / 10) < (3 / 2) * to_double (34 / 10) \<and>
   is_large py_round1 (float_times_1_5 (to_double (34 / 10)))
     \<lparr>wtext = ''Title'', wsize = Some (to_double (51 / 10))\<rparr> \<and>
   large_text_blocks_of py_round1 (float_times_1_5 (to_double (34 / 10)))
     (sized_words_of (words page_34)) = [''Title'']"
  by code_simp

lemma sample_clean: "clean_title_of ''1 Error Handling'' \<noteq> []"
  by code_simp

lemma sample_scan:
  "find_offset_by_title_scan py_round1 float_times_1_5 True (Pdf sample_pages)
     ''1 Error Handling'' 3 1 = (Some (1, 4), [2, 3, 4])"
  by code_simp

text \<open>
  Claim C1 on the sample document: the teaser page (file page 3) has the title in large
  font and lacks the page number, the scan goes on and returns file page 4.
\<close>

theorem title_scan_first_page_passing_both_checks_witness:
  "clean_title_of ''1 Error Handling'' \<noteq> [] \<and>
   fst (find_offset_by_title_scan py_round1 float_times_1_5 True (Pdf sample_pages)
          ''1 Error Handling'' 3 1) = Some (4 - 3, 4) \<and>
   check_page py_round1 float_times_1_5 (search_key_of (clean_title_of ''1 Error Handling''))
     (str_int 3) teaser_page = Checked True False \<and>
   (\<exists>i \<in> set (scan_range 1 (length sample_pages)).
      (4 :: int) = int i + 1 \<and>
      check_page py_round1 float_times_1_5 (search_key_of (clean_title_of ''1 Error Handling''))
        (str_int 3) (sample_pages ! i) = Checked True True)"
proof -
  have v: "fst (find_offset_by_title_scan py_round1 float_times_1_5 True (Pdf sample_pages)
                  ''1 Error Handling'' 3 1) = Some (1, 4)"
    by (simp add: sample_scan)
  have t: "check_page py_round1 float_times_1_5
     (search_key_of (clean_title_of ''1 Error Handling'')) (str_int 3) teaser_page =
       Checked True False"
    by code_simp
  from title_scan_first_page_passing_both_checks [OF TrueI sample_clean,
      of py_round1 float_times_1_5 sample_pages 3 1] v
  have "\<exists>i \<in> set (scan_range 1 (length sample_pages)).
      (4 :: int) = int i + 1 \<and>
      check_page py_round1 float_times_1_5 (search_key_of (clean_title_of ''1 Error Handling''))
        (str_int 3) (sample_pages ! i) = Checked True True"
    by blast
  with v t sample_clean show ?thesis by simp
qed

text \<open>
  Claim C6 on the sample document: with the TOC ending on file page 1 the pages read
  are 2, 3 and 4; a title that occurs nowhere gives \<open>None\<close>.
\<close>

theorem title_scan_window_bounded_witness:
  "snd (find_offset_by_title_scan py_round1 float_times_1_5 True (Pdf sample_pages)
          ''1 Error Handling'' 3 1) = [2, 3, 4] \<and>
   (0 :: int) \<le> 1 \<and>
   [2, 3, 4] = [(1 :: int) + 1 .. 1 + int (length [2, 3, 4 :: int])] \<and>
   fst (find_offset_by_title_scan py_round1 float_times_1_5 True (Pdf sample_pages)
          ''2 Basics'' 20 1) = None"
proof -
  have v: "snd (find_offset_by_title_scan py_round1 float_times_1_5 True (Pdf sample_pages)
                  ''1 Error Handling'' 3 1) = [2, 3, 4]"
    by (simp add: sample_scan)
  have "\<forall>i \<in> set (scan_range 1 (length sample_pages)).
          check_page py_round1 float_times_1_5 (search_key_of (clean_title_of ''2 Basics''))
            (str_int 20) (sample_pages ! i) \<noteq> Checked True True"
    by code_simp
  then have none: "\<forall>pages. Pdf sample_pages = Pdf pages \<longrightarrow>
       (\<forall>i \<in> set (scan_range 1 (length pages)).
          check_page py_round1 float_times_1_5 (search_key_of (clean_title_of ''2 Basics''))
            (str_int 20) (pages ! i) \<noteq> Checked True True)"
    by simp
  from title_scan_window_bounded
    [of py_round1 float_times_1_5 True "Pdf sample_pages" "''1 Error Handling''" 3 1] v
  have a: "[2, 3, 4] = [(1 :: int) + 1 .. 1 + int (length [2, 3, 4 :: int])]"
    by (simp add: Let_def)
  from title_scan_window_bounded
    [of py_round1 float_times_1_5 True "Pdf sample_pages" "''2 Basics''" 20 1] none
  have b: "fst (find_offset_by_title_scan py_round1 float_times_1_5 True (Pdf sample_pages)
                  ''2 Basics'' 20 1) = None"
    by blast
  from v a b show ?thesis by simp
qed

subsection \<open>The range mapper\<close>

lemma dict_set_new: "k \<notin> fst ` set d \<Longrightarrow> dict_set d k v = d @ [(k, v)]"
  by (induction d k v rule: dict_set.induct) auto

lemma range_loop_from:
  assumes "distinct (map fst xs)"
  shows "k \<le> length xs \<Longrightarrow> fst ` set acc \<inter> fst ` set (drop k xs) = {} \<Longrightarrow>
         foldl (range_step xs lpp) acc [k ..< length xs] = acc @ ranges_of_sorted lpp (drop k xs)"
proof (induction "length xs - k" arbitrary: k acc)
  case 0
  then show ?case by simp
next
  case (Suc n)
  then have k: "k < length xs" by simp
  obtain title start_page where xk: "xs ! k = (title, start_page)" by (cases "xs ! k")
  have dropk: "drop k xs = (title, start_page) # drop (Suc k) xs"
    using Cons_nth_drop_Suc [OF k] xk by simp
  have fresh: "title \<notin> fst ` set acc"
    using Suc.prems(2) dropk by auto
  have later: "title \<notin> fst ` set (drop (Suc k) xs)"
  proof -
    have "distinct (map fst (drop k xs))"
      using assms by (simp add: distinct_drop flip: drop_map)
    then show ?thesis by (simp add: dropk)
  qed
  define end_page where "end_page =
    (if int k < int (length xs) - 1 then snd (xs ! (k + 1)) - 1 else lpp)"
  define acc' where "acc' = (if start_page \<le> end_page then acc @ [(title, start_page, end_page)] else acc)"
  have step: "range_step xs lpp acc k = acc'"
    using fresh by (simp add: range_step_def xk end_page_def acc'_def Let_def dict_set_new)
  have disj: "fst ` set acc' \<inter> fst ` set (drop (Suc k) xs) = {}"
  proof -
    have "fst ` set acc \<inter> fst ` set (drop (Suc k) xs) = {}"
      using Suc.prems(2) dropk by auto
    with later show ?thesis by (auto simp: acc'_def)
  qed
  have IH: "foldl (range_step xs lpp) acc' [Suc k ..< length xs] =
              acc' @ ranges_of_sorted lpp (drop (Suc k) xs)"
    using Suc.hyps(2) k disj by (intro Suc.hyps(1)) auto
  have rec: "acc @ ranges_of_sorted lpp (drop k xs) =
             acc' @ ranges_of_sorted lpp (drop (Suc k) xs)"
  proof (cases "Suc k < length xs")
    case True
    obtain title' next_start where xk': "xs ! Suc k = (title', next_start)"
      by (cases "xs ! Suc k")
    have "drop (Suc k) xs = (title', next_start) # drop (Suc (Suc k)) xs"
      using Cons_nth_drop_Suc [OF True] xk' by simp
    moreover have "end_page = next_start - 1"
      using True by (simp add: end_page_def xk')
    ultimately show ?thesis
      by (simp add: dropk acc'_def)
  next
    case False
    with k have "Suc k = length xs" by simp
    then have "drop (Suc k) xs = []" "end_page = lpp"
      by (simp_all add: end_page_def)
    then show ?thesis by (simp add: dropk acc'_def)
  qed
  have "[k ..< length xs] = k # [Suc k ..< length xs]"
    using k by (simp add: upt_conv_Cons)
  then show ?case
    by (simp add: step IH rec)
qed

lemma map_starts_to_ranges_sorted:
  assumes "distinct (map fst cs)"
  shows "map_starts_to_ranges cs lpp = ranges_of_sorted lpp (sort_key snd cs)"
proof -
  have "distinct (map fst (sort_key snd cs))"
    using assms by (metis distinct_map distinct_sort set_sort inj_on_def) 
  from range_loop_from [OF this, of 0 "[]" lpp] show ?thesis
    by (simp add: map_starts_to_ranges_def Let_def)
qed

lemma ranges_starts_subset:
  "(t, s, e) \<in> set (ranges_of_sorted lpp xs) \<Longrightarrow> (t, s) \<in> set xs"
  by (induction lpp xs rule: ranges_of_sorted.induct) (auto split: if_splits)

lemma ranges_start_le_end:
  "(t, s, e) \<in> set (ranges_of_sorted lpp xs) \<Longrightarrow> s \<le> e"
  by (induction lpp xs rule: ranges_of_sorted.induct) (auto split: if_splits)

lemma length_ranges_le: "length (ranges_of_sorted lpp xs) \<le> length xs"
  by (induction lpp xs rule: ranges_of_sorted.induct) auto

lemma ranges_pairwise_apart:
  "sorted (map snd xs) \<Longrightarrow>
   sorted_wrt (\<lambda>a b. snd (snd a) < fst (snd b)) (ranges_of_sorted lpp xs)"
proof (induction lpp xs rule: ranges_of_sorted.induct)
  case (1 lpp)
  then show ?case by simp
next
  case (2 lpp title start_page)
  then show ?case by simp
next
  case (3 lpp title start_page title' next_start rest)
  have later: "next_start - 1 < fst (snd r)"
    if "r \<in> set (ranges_of_sorted lpp ((title', next_start) # rest))" for r
  proof -
    obtain t s e where r: "r = (t, s, e)" by (cases r)
    with that have "(t, s) \<in> set ((title', next_start) # rest)"
      using ranges_starts_subset by blast
    with 3(2) have "next_start \<le> s" by auto
    then show ?thesis by (simp add: r)
  qed
  from 3 have "sorted_wrt (\<lambda>a b. snd (snd a) < fst (snd b))
                 (ranges_of_sorted lpp ((title', next_start) # rest))"
    by simp
  with later show ?case
    by (auto simp: sorted_wrt_append) 
qed

lemma ranges_cover:
  "sorted (map snd xs) \<Longrightarrow> xs \<noteq> [] \<Longrightarrow> \<forall>c \<in> set xs. snd c \<le> lpp \<Longrightarrow>
   (\<Union>r \<in> set (ranges_of_sorted lpp xs). {fst (snd r) .. snd (snd r)}) = {snd (hd xs) .. lpp}"
proof (induction lpp xs rule: ranges_of_sorted.induct)
  case (1 lpp)
  then show ?case by simp
next
  case (2 lpp title start_page)
  then show ?case by simp
next
  case (3 lpp title start_page title' next_start rest)
  then have IH: "(\<Union>r \<in> set (ranges_of_sorted lpp ((title', next_start) # rest)).
                   {fst (snd r) .. snd (snd r)}) = {next_start .. lpp}"
    by simp
  from 3(2,4) have ord: "start_page \<le> next_start" "next_start \<le> lpp" by auto
  show ?case
  proof (cases "start_page \<le> next_start - 1")
    case True
    have "{start_page .. next_start - 1} \<union> {next_start .. lpp} = {start_page .. lpp}"
      using True ord by auto
    with True IH show ?thesis by simp
  next
    case False
    with ord have "start_page = next_start" by simp
    with False IH show ?thesis by simp
  qed
qed

lemma ranges_all_kept:
  "sorted (map snd xs) \<Longrightarrow> distinct (map snd xs) \<Longrightarrow> \<forall>c \<in> set xs. snd c \<le> lpp \<Longrightarrow>
   map fst (ranges_of_sorted lpp xs) = map fst xs \<and>
   map (fst \<circ> snd) (ranges_of_sorted lpp xs) = map snd xs"
proof (induction lpp xs rule: ranges_of_sorted.induct)
  case (1 lpp)
  then show ?case by simp
next
  case (2 lpp title start_page)
  then show ?case by simp
next
  case (3 lpp title start_page title' next_start rest)
  from 3(2,3) have "start_page < next_start" by (auto simp: order_less_le)
  with 3 show ?case by simp
qed

lemma hd_sorted_Min:
  "sorted (map snd xs) \<Longrightarrow> xs \<noteq> [] \<Longrightarrow> snd (hd xs) = Min (snd ` set xs)"
proof -
  assume s: "sorted (map snd xs)" and ne: "xs \<noteq> []"
  then obtain x r where xs: "xs = x # r" by (cases xs) auto
  have "Min (snd ` set xs) = snd x"
    using s by (intro Min_eqI) (auto simp: xs)
  then show ?thesis by (simp add: xs)
qed

lemma sorted_wrt_consecutive:
  "sorted_wrt P xs \<Longrightarrow> Suc i < length xs \<Longrightarrow> P (xs ! i) (xs ! Suc i)"
  by (simp add: sorted_wrt_iff_nth_less)

lemma sorted_sort_key_snd: "sorted (map snd (sort_key snd cs))"
  by (rule sorted_sort_key)

text \<open>
  Claim C2, as amended.  For a dictionary of \<open>N\<close> chapter starts the mapper produces at
  most \<open>N\<close> ranges, each with \<open>start \<le> end\<close> and each starting at a chapter start;
  consecutive ranges do not overlap; when no start page exceeds the last printed page,
  the union of the ranges is exactly the interval from the first start to the last
  printed page; and when moreover the start pages are pairwise distinct, there are
  exactly \<open>N\<close> ranges.
\<close>

theorem range_mapper_ranges:
  assumes "distinct (map fst chapter_starts)"
  shows
    "length (map_starts_to_ranges chapter_starts last_printed_page) \<le> length chapter_starts \<and>
     (\<forall>(title, start_page, end_page) \<in> set (map_starts_to_ranges chapter_starts last_printed_page).
        start_page \<le> end_page \<and> (title, start_page) \<in> set chapter_starts) \<and>
     (\<forall>i. Suc i < length (map_starts_to_ranges chapter_starts last_printed_page) \<longrightarrow>
        snd (snd (map_starts_to_ranges chapter_starts last_printed_page ! i)) <
        fst (snd (map_starts_to_ranges chapter_starts last_printed_page ! Suc i))) \<and>
     (chapter_starts \<noteq> [] \<and>
      (\<forall>(title, start_page) \<in> set chapter_starts. start_page \<le> last_printed_page) \<longrightarrow>
        (\<Union>(title, start_page, end_page) \<in> set (map_starts_to_ranges chapter_starts last_printed_page).
           {start_page .. end_page}) =
        {Min (snd ` set chapter_starts) .. last_printed_page}) \<and>
     (distinct (map snd chapter_starts) \<and>
      (\<forall>(title, start_page) \<in> set chapter_starts. start_page \<le> last_printed_page) \<longrightarrow>
        length (map_starts_to_ranges chapter_starts last_printed_page) = length chapter_starts)"
proof -
  define xs where "xs = sort_key snd chapter_starts"
  define rs where "rs = map_starts_to_ranges chapter_starts last_printed_page"
  have rs: "rs = ranges_of_sorted last_printed_page xs"
    by (simp add: rs_def xs_def map_starts_to_ranges_sorted [OF assms])
  have sorted: "sorted (map snd xs)"
    by (simp add: xs_def sorted_sort_key_snd)
  have set_xs: "set xs = set chapter_starts" and len_xs: "length xs = length chapter_starts"
    by (simp_all add: xs_def)
  have c1: "length rs \<le> length chapter_starts"
    using length_ranges_le [of last_printed_page xs] by (simp add: rs len_xs)
  have c2: "\<forall>(title, start_page, end_page) \<in> set rs.
              start_page \<le> end_page \<and> (title, start_page) \<in> set chapter_starts"
    using ranges_start_le_end ranges_starts_subset by (fastforce simp: rs simp flip: set_xs)
  have c3: "\<forall>i. Suc i < length rs \<longrightarrow> snd (snd (rs ! i)) < fst (snd (rs ! Suc i))"
    using sorted_wrt_consecutive [OF ranges_pairwise_apart [OF sorted, of last_printed_page]]
    by (simp add: rs)
  have c4: "(\<Union>(title, start_page, end_page) \<in> set rs. {start_page .. end_page}) =
              {Min (snd ` set chapter_starts) .. last_printed_page}"
    if "chapter_starts \<noteq> []"
      and "\<forall>(title, start_page) \<in> set chapter_starts. start_page \<le> last_printed_page"
  proof -
    from that(1) have ne: "xs \<noteq> []" using len_xs by auto
    from that(2) have le: "\<forall>c \<in> set xs. snd c \<le> last_printed_page"
      by (auto simp: set_xs)
    have "(\<Union>(title, start_page, end_page) \<in> set rs. {start_page .. end_page}) =
          (\<Union>r \<in> set rs. {fst (snd r) .. snd (snd r)})"
      by (auto simp: case_prod_beta)
    also have "\<dots> = {snd (hd xs) .. last_printed_page}"
      unfolding rs by (rule ranges_cover [OF sorted ne le])
    also have "snd (hd xs) = Min (snd ` set chapter_starts)"
      using hd_sorted_Min [OF sorted ne] by (simp add: set_xs)
    finally show ?thesis .
  qed
  have c5: "length rs = length chapter_starts"
    if "distinct (map snd chapter_starts)"
      and "\<forall>(title, start_page) \<in> set chapter_starts. start_page \<le> last_printed_page"
  proof -
    from that(1) have d: "distinct (map snd xs)"
      unfolding xs_def by (metis distinct_map distinct_sort set_sort)
    from that(2) have le: "\<forall>c \<in> set xs. snd c \<le> last_printed_page"
      by (auto simp: set_xs)
    from ranges_all_kept [OF sorted d le]
    have "map fst rs = map fst xs" by (simp add: rs)
    then have "length rs = length xs" by (rule map_eq_imp_length_eq)
    then show ?thesis by (simp add: len_xs)
  qed
  from c1 c2 c3 c4 c5 show ?thesis
    unfolding rs_def by blast
qed

text \<open>
  Claim C2 on the sample starts, with last printed page 40.
\<close>

theorem range_mapper_ranges_witness:
  "map_starts_to_ranges sample_starts 40 = [(''1 Introduction'', 3, 19), (''2 Basics'', 20, 40)] \<and>
   (\<Union>(title, start_page, end_page) \<in> set (map_starts_to_ranges sample_starts 40).
      {start_page .. end_page}) = {3 .. 40} \<and>
   length (map_starts_to_ranges sample_starts 40) = length sample_starts"
proof -
  have d: "distinct (map fst sample_starts)"
    by (simp add: sample_starts_def)
  have h: "sample_starts \<noteq> []" "distinct (map snd sample_starts)"
    "\<forall>(title, start_page) \<in> set sample_starts. start_page \<le> 40"
    "Min (snd ` set sample_starts) = 3"
    by (simp_all add: sample_starts_def)
  have v: "map_starts_to_ranges sample_starts 40 =
      [(''1 Introduction'', 3, 19), (''2 Basics'', 20, 40)]"
    by (simp add: sample_starts_def map_starts_to_ranges_def range_step_def Let_def)
  from range_mapper_ranges [OF d, of 40] h
  have "(\<Union>(title, start_page, end_page) \<in> set (map_starts_to_ranges sample_starts 40).
      {start_page .. end_page}) = {3 .. 40} \<and>
   length (map_starts_to_ranges sample_starts 40) = length sample_starts"
    by simp
  with v show ?thesis by simp
qed

text \<open>
  Claim C2 as stated fails: two entries with the same start page give one range, since
  the entry whose range would be empty is dropped.
\<close>

theorem range_mapper_exactly_n_counterexample:
  "distinct (map fst [(''1 Alpha'', 3 :: int), (''1.1 Beta'', 3)]) \<and>
   map_starts_to_ranges [(''1 Alpha'', 3), (''1.1 Beta'', 3)] 10 = [(''1.1 Beta'', 3, 10)] \<and>
   length (map_starts_to_ranges [(''1 Alpha'', 3), (''1.1 Beta'', 3)] 10) \<noteq>
   length [(''1 Alpha'', 3 :: int), (''1.1 Beta'', 3)]"
  by (simp add: map_starts_to_ranges_def range_step_def Let_def)

subsection \<open>The TOC extractor\<close>

lemma toc_match_step_cases:
  "toc_match_step acc m =
     (case py_int (snd (snd m)) of
        None \<Rightarrow> None
      | Some printed_page \<Rightarrow>
          (case accepted_entry m of
             None \<Rightarrow> Some acc
           | Some (label, page) \<Rightarrow>
               if label \<in> fst ` set acc then Some acc else Some (acc @ [(label, page)])))"
  by (cases m)
     (auto simp: toc_match_step_def accepted_entry_def dict_keys_def Let_def dict_set_new
           split: option.splits)

lemma map_of_append_shadowed:
  "k \<in> fst ` set acc \<Longrightarrow> map_of (acc @ (k, v) # es) = map_of (acc @ es)"
proof
  fix x
  assume k: "k \<in> fst ` set acc"
  then obtain w where w: "map_of acc k = Some w"
    by (metis map_of_eq_None_iff not_Some_eq)
  show "map_of (acc @ (k, v) # es) x = map_of (acc @ es) x"
    by (cases "x = k") (simp_all add: map_add_def w split: option.splits)
qed

lemma toc_matches_loop_inv:
  "toc_matches_loop acc ms = Some acc' \<Longrightarrow> distinct (map fst acc) \<Longrightarrow>
   distinct (map fst acc') \<and>
   map_of acc' = map_of (acc @ List.map_filter accepted_entry ms) \<and>
   set acc' \<subseteq> set acc \<union> set (List.map_filter accepted_entry ms) \<and>
   (acc' = [] \<longleftrightarrow> acc = [] \<and> List.map_filter accepted_entry ms = [])"
proof (induction ms arbitrary: acc)
  case Nil
  then show ?case by (simp add: List.map_filter_simps)
next
  case (Cons m ms)
  from Cons.prems(1) obtain acc1 where
    step: "toc_match_step acc m = Some acc1" and loop: "toc_matches_loop acc1 ms = Some acc'"
    by (auto split: option.splits)
  show ?case
  proof (cases "accepted_entry m")
    case None
    with step have "acc1 = acc"
      by (auto simp: toc_match_step_cases split: option.splits)
    with Cons.IH [OF loop] Cons.prems(2) None show ?thesis
      by (simp add: List.map_filter_simps)
  next
    case (Some e)
    obtain label page where e: "e = (label, page)" by (cases e)
    show ?thesis
    proof (cases "label \<in> fst ` set acc")
      case True
      with step Some e have "acc1 = acc"
        by (auto simp: toc_match_step_cases split: option.splits)
      with Cons.IH [OF loop] Cons.prems(2)
      have IH: "distinct (map fst acc')"
        "map_of acc' = map_of (acc @ List.map_filter accepted_entry ms)"
        "set acc' \<subseteq> set acc \<union> set (List.map_filter accepted_entry ms)"
        "acc' = [] \<longleftrightarrow> acc = [] \<and> List.map_filter accepted_entry ms = []"
        by simp_all
      from True have "acc \<noteq> []" by auto
      with IH map_of_append_shadowed [OF True, of page "List.map_filter accepted_entry ms"]
      show ?thesis
        by (auto simp: List.map_filter_simps Some e)
    next
      case False
      with step Some e have acc1: "acc1 = acc @ [(label, page)]"
        by (auto simp: toc_match_step_cases split: option.splits)
      from False Cons.prems(2) have "distinct (map fst acc1)"
        by (simp add: acc1)
      from Cons.IH [OF loop this] show ?thesis
        by (auto simp: List.map_filter_simps Some e acc1)
    qed
  qed
qed

lemma toc_matches_loop_append:
  "toc_matches_loop acc (ms1 @ ms2) =
     (case toc_matches_loop acc ms1 of None \<Rightarrow> None | Some a \<Rightarrow> toc_matches_loop a ms2)"
  by (induction ms1 arbitrary: acc) (auto split: option.splits)

lemma toc_pages_loop_matches:
  "toc_pages_loop finditer acc ps =
     toc_matches_loop acc
       (concat (map (\<lambda>p. finditer (page_text_raw p)) (filter (\<lambda>p. page_text_raw p \<noteq> []) ps)))"
  by (induction ps arbitrary: acc) (auto simp: toc_matches_loop_append split: option.splits)

lemma toc_matches_loop_parses:
  "toc_matches_loop acc ms = Some acc' \<Longrightarrow> \<forall>m \<in> set ms. py_int (snd (snd m)) \<noteq> None"
  by (induction ms arbitrary: acc) (auto simp: toc_match_step_cases split: option.splits)

lemma toc_matches_loop_total:
  "\<forall>m \<in> set ms. py_int (snd (snd m)) \<noteq> None \<Longrightarrow> \<exists>acc'. toc_matches_loop acc ms = Some acc'"
  by (induction ms arbitrary: acc) (auto simp: toc_match_step_cases split: option.splits)

lemma accepted_entry_Some:
  "accepted_entry m = Some (label, page) \<longleftrightarrow>
     (\<exists>g1 g2 g3. m = (g1, g2, g3) \<and> label = strip g1 @ '' '' @ strip g2 \<and>
        5 < length (strip g2) \<and> py_int g3 = Some page \<and> 1 < page)"
  by (cases m) (auto simp: accepted_entry_def split: option.splits)

lemma extract_Some:
  assumes "extract_chapters_from_toc finditer pdfplumber (Pdf pages) pages_to_scan =
             (Some chapters, msgs)"
  shows "\<exists>extracted.
           toc_matches_loop [] (scanned_matches finditer pages pages_to_scan) = Some extracted \<and>
           extracted \<noteq> [] \<and> chapters = sort_key snd extracted"
  using assms
  by (auto simp: extract_chapters_from_toc_def Let_def toc_pages_loop_matches scanned_matches_def
        split: if_splits option.splits)

text \<open>
  Claim C4.  When the extractor returns a mapping, every entry of it comes from a
  scanned match whose stripped title is longer than 5 characters and whose printed page
  exceeds 1; no label occurs twice, and the page kept for a label is the page of the
  first match, in the order of the scan, that passes this filter with that label
  (\<open>map_of\<close> reads the first pair of a key); the entries are in ascending order of their
  printed pages.
\<close>

theorem toc_entries_filtered_deduplicated_sorted:
  assumes "extract_chapters_from_toc finditer pdfplumber (Pdf pages) pages_to_scan =
             (Some chapters, msgs)"
  shows
    "(\<forall>(label, printed_page) \<in> set chapters.
        1 < printed_page \<and>
        (\<exists>(g1, g2, g3) \<in> set (scanned_matches finditer pages pages_to_scan).
           label = strip g1 @ '' '' @ strip g2 \<and> 5 < length (strip g2) \<and>
           py_int g3 = Some printed_page)) \<and>
     distinct (map fst chapters) \<and>
     map_of chapters =
       map_of (List.map_filter accepted_entry (scanned_matches finditer pages pages_to_scan)) \<and>
     sorted (map snd chapters) \<and>
     chapters \<noteq> []"
proof -
  define ms where "ms = scanned_matches finditer pages pages_to_scan"
  from extract_Some [OF assms] obtain extracted where
    ex: "toc_matches_loop [] ms = Some extracted" "extracted \<noteq> []"
      "chapters = sort_key snd extracted"
    unfolding ms_def by blast
  from toc_matches_loop_inv [OF ex(1)] have inv:
    "distinct (map fst extracted)"
    "map_of extracted = map_of (List.map_filter accepted_entry ms)"
    "set extracted \<subseteq> set (List.map_filter accepted_entry ms)"
    by simp_all
  have set_eq: "set chapters = set extracted" by (simp add: ex(3))
  have d: "distinct (map fst chapters)"
    using inv(1) unfolding ex(3) by (metis distinct_map distinct_sort set_sort)
  have m: "map_of chapters = map_of extracted"
    using d inv(1) set_eq by (simp add: map_of_inject_set)
  have s: "sorted (map snd chapters)"
    unfolding ex(3) by (rule sorted_sort_key)
  have ne: "chapters \<noteq> []"
    using ex(2) set_eq by (metis set_empty)
  have c1: "\<forall>(label, printed_page) \<in> set chapters.
        1 < printed_page \<and>
        (\<exists>(g1, g2, g3) \<in> set ms.
           label = strip g1 @ '' '' @ strip g2 \<and> 5 < length (strip g2) \<and>
           py_int g3 = Some printed_page)"
  proof (intro ballI, clarify)
    fix label printed_page
    assume "(label, printed_page) \<in> set chapters"
    with set_eq inv(3) have "(label, printed_page) \<in> set (List.map_filter accepted_entry ms)"
      by blast
    then obtain mm where mm: "mm \<in> set ms" "accepted_entry mm = Some (label, printed_page)"
      by (auto simp: List.map_filter_def)
    from mm(2) obtain g1 g2 g3 where g: "mm = (g1, g2, g3)"
      "label = strip g1 @ '' '' @ strip g2" "5 < length (strip g2)"
      "py_int g3 = Some printed_page" "1 < printed_page"
      unfolding accepted_entry_Some by blast
    with mm(1) show "1 < printed_page \<and>
        (\<exists>(g1, g2, g3) \<in> set ms.
           label = strip g1 @ '' '' @ strip g2 \<and> 5 < length (strip g2) \<and>
           py_int g3 = Some printed_page)"
      by blast
  qed
  from c1 d m inv(2) s ne show ?thesis
    unfolding ms_def by simp
qed

lemma sample_toc_result:
  "extract_chapters_from_toc sample_finditer True (Pdf sample_pages) 15 =
     (Some [(''1 Error Handling'', 3), (''2 Basics of it'', 20)], [TocSuccess 2])"
  by code_simp

text \<open>
  Claim C4 on the sample matches: \<open>1 Error Handling\<close> matches with pages 3 and 5 and
  keeps page 3; the short title and the page 1 are filtered out; the result is sorted.
\<close>

theorem toc_entries_filtered_deduplicated_sorted_witness:
  "extract_chapters_from_toc sample_finditer True (Pdf sample_pages) 15 =
     (Some [(''1 Error Handling'', 3), (''2 Basics of it'', 20)], [TocSuccess 2]) \<and>
   map_of [(''1 Error Handling'', 3), (''2 Basics of it'', 20)] =
     map_of (List.map_filter accepted_entry (scanned_matches sample_finditer sample_pages 15)) \<and>
   List.map_filter accepted_entry (scanned_matches sample_finditer sample_pages 15) =
     [(''2 Basics of it'', 20), (''1 Error Handling'', 3), (''1 Error Handling'', 5)]"
proof -
  have a: "List.map_filter accepted_entry (scanned_matches sample_finditer sample_pages 15) =
     [(''2 Basics of it'', 20), (''1 Error Handling'', 3), (''1 Error Handling'', 5)]"
    by code_simp
  from toc_entries_filtered_deduplicated_sorted [OF sample_toc_result]
  have "map_of [(''1 Error Handling'', 3), (''2 Basics of it'', 20)] =
     map_of (List.map_filter accepted_entry (scanned_matches sample_finditer sample_pages 15))"
    by blast
  with sample_toc_result a show ?thesis by blast
qed

text \<open>
  Claim C8, as amended.  When the scan raises nothing and no match passes the filter, the
  extractor returns \<open>None\<close> and prints the line for "no numbered chapter patterns
  found".  An unreadable or missing file returns the same value \<open>None\<close>; only the
  printed line differs.  The caller cannot tell the two apart and leaves through
  \<^verbatim>\<open>sys.exit\<close> with one message for both; nothing is raised.
\<close>

theorem toc_no_entries_returns_none:
  assumes "pdfplumber"
    and "\<forall>m \<in> set (scanned_matches finditer pages pages_to_scan). py_int (snd (snd m)) \<noteq> None"
    and "List.map_filter accepted_entry (scanned_matches finditer pages pages_to_scan) = []"
  shows
    "extract_chapters_from_toc finditer pdfplumber (Pdf pages) pages_to_scan =
       (None, [TocNoPatterns]) \<and>
     extract_chapters_from_toc finditer pdfplumber (Unreadable :: 'f pdf) pages_to_scan =
       (None, [TocException]) \<and>
     extract_chapters_from_toc finditer pdfplumber (FileMissing :: 'f pdf) pages_to_scan =
       (None, [TocFileNotFound]) \<and>
     toc_stage (fst (extract_chapters_from_toc finditer pdfplumber (Pdf pages) pages_to_scan)) =
       SysExit ''Automatic TOC extraction failed.''"
proof -
  from toc_matches_loop_total [OF assms(2)] obtain extracted where
    ex: "toc_matches_loop [] (scanned_matches finditer pages pages_to_scan) = Some extracted"
    by blast
  from toc_matches_loop_inv [OF ex] assms(3) have "extracted = []" by simp
  with ex have "toc_pages_loop finditer []
      (take (nat (min pages_to_scan (int (length pages)))) pages) = Some []"
    by (simp add: toc_pages_loop_matches scanned_matches_def)
  then have a: "extract_chapters_from_toc finditer pdfplumber (Pdf pages) pages_to_scan =
       (None, [TocNoPatterns])"
    using assms(1) by (simp add: extract_chapters_from_toc_def Let_def)
  have b: "extract_chapters_from_toc finditer pdfplumber (Unreadable :: 'f pdf) pages_to_scan =
       (None, [TocException])"
    "extract_chapters_from_toc finditer pdfplumber (FileMissing :: 'f pdf) pages_to_scan =
       (None, [TocFileNotFound])"
    using assms(1) by (simp_all add: extract_chapters_from_toc_def)
  from a b show ?thesis by (simp add: toc_stage_def)
qed

text \<open>
  Claim C8 on the sample document with a match that the filter rejects.
\<close>

theorem toc_no_entries_returns_none_witness:
  "extract_chapters_from_toc (\<lambda>t. [(''3'', ''Abc'', ''9'')]) True (Pdf sample_pages) 15 =
     (None, [TocNoPatterns]) \<and>
   extract_chapters_from_toc (\<lambda>t. [(''3'', ''Abc'', ''9'')]) True (Unreadable :: rat pdf) 15 =
     (None, [TocException])"
proof -
  have h: "\<forall>m \<in> set (scanned_matches (\<lambda>t. [(''3'', ''Abc'', ''9'')]) sample_pages 15).
             py_int (snd (snd m)) \<noteq> None"
    "List.map_filter accepted_entry
       (scanned_matches (\<lambda>t. [(''3'', ''Abc'', ''9'')]) sample_pages 15) = []"
    by code_simp+
  from toc_no_entries_returns_none [OF TrueI h] show ?thesis by blast
qed

text \<open>
  Claim C8 as stated fails: the value returned for a document without matches equals the
  value returned for an unreadable file, and the caller's reaction is the same.
\<close>

theorem toc_no_entries_same_value_as_error_counterexample:
  "fst (extract_chapters_from_toc (\<lambda>t. []) True (Pdf sample_pages) 15) =
   fst (extract_chapters_from_toc (\<lambda>t. []) True (Unreadable :: rat pdf) 15) \<and>
   fst (extract_chapters_from_toc (\<lambda>t. []) True (Pdf sample_pages) 15) = None \<and>
   toc_stage (fst (extract_chapters_from_toc (\<lambda>t. []) True (Pdf sample_pages) 15)) =
   toc_stage (fst (extract_chapters_from_toc (\<lambda>t. []) True (Unreadable :: rat pdf) 15))"
  by code_simp

subsection \<open>The splitter\<close>

lemma split_loop_all:
  "\<forall>c \<in> set chapter_pages.
     \<not> invalid_range total_pages (fst (snd c)) (snd (snd c)) \<longrightarrow> writable (output_path_of (fst c)) \<Longrightarrow>
   split_loop writable total_pages chapter_pages events =
     events @
     map (\<lambda>(title_with_num, file_start, file_end).
            if invalid_range total_pages file_start file_end
            then WarningSkipping title_with_num file_start file_end
            else Created (output_path_of title_with_num) file_start file_end) chapter_pages @
     [SplittingComplete]"
proof (induction chapter_pages arbitrary: events)
  case Nil
  then show ?case by simp
next
  case (Cons c cs)
  obtain title_with_num file_start file_end where c: "c = (title_with_num, file_start, file_end)"
    by (cases c)
  from Cons.prems have rest: "\<forall>c \<in> set cs.
     \<not> invalid_range total_pages (fst (snd c)) (snd (snd c)) \<longrightarrow> writable (output_path_of (fst c))"
    by simp
  from Cons.prems have this_one:
    "\<not> invalid_range total_pages file_start file_end \<Longrightarrow> writable (output_path_of title_with_num)"
    by (simp add: c)
  show ?case
    using this_one by (simp add: c Cons.IH [OF rest] Let_def)
qed

text \<open>
  Claim C3.  A range is invalid exactly when \<open>file_start < 1\<close>, \<open>file_end > total_pages\<close>
  or \<open>file_start > file_end\<close>.  An invalid chapter adds a warning to the log and the loop
  goes on with the remaining chapters; a valid chapter whose file the PDF writer can
  write adds one created file and the loop goes on.  So when the writer succeeds on
  every valid chapter, the run logs exactly one event per chapter, in order (a warning
  for each invalid one, one created file for each valid one) and reaches its end.
\<close>

theorem split_skips_invalid_ranges_and_continues:
  "(invalid_range total_pages file_start file_end \<longleftrightarrow>
      file_start < 1 \<or> total_pages < file_end \<or> file_end < file_start) \<and>
   (invalid_range total_pages file_start file_end \<longrightarrow>
      split_loop writable total_pages ((title_with_num, file_start, file_end) # rest) events =
      split_loop writable total_pages rest
        (events @ [WarningSkipping title_with_num file_start file_end])) \<and>
   (\<not> invalid_range total_pages file_start file_end \<and> writable (output_path_of title_with_num) \<longrightarrow>
      split_loop writable total_pages ((title_with_num, file_start, file_end) # rest) events =
      split_loop writable total_pages rest
        (events @ [Created (output_path_of title_with_num) file_start file_end])) \<and>
   ((\<forall>c \<in> set chapter_pages.
       \<not> invalid_range (int (length pages)) (fst (snd c)) (snd (snd c)) \<longrightarrow>
       writable (output_path_of (fst c))) \<longrightarrow>
      split_pdf_by_chapters writable (Pdf pages) chapter_pages =
        map (\<lambda>(title_with_num, file_start, file_end).
               if invalid_range (int (length pages)) file_start file_end
               then WarningSkipping title_with_num file_start file_end
               else Created (output_path_of title_with_num) file_start file_end) chapter_pages @
        [SplittingComplete])"
proof (intro conjI impI)
  show "invalid_range total_pages file_start file_end \<longleftrightarrow>
      file_start < 1 \<or> total_pages < file_end \<or> file_end < file_start"
    by (simp add: invalid_range_def)
next
  assume "invalid_range total_pages file_start file_end"
  then show "split_loop writable total_pages ((title_with_num, file_start, file_end) # rest) events =
      split_loop writable total_pages rest
        (events @ [WarningSkipping title_with_num file_start file_end])"
    by (simp add: Let_def)
next
  assume "\<not> invalid_range total_pages file_start file_end \<and> writable (output_path_of title_with_num)"
  then show "split_loop writable total_pages ((title_with_num, file_start, file_end) # rest) events =
      split_loop writable total_pages rest
        (events @ [Created (output_path_of title_with_num) file_start file_end])"
    by (simp add: Let_def)
next
  assume "\<forall>c \<in> set chapter_pages.
       \<not> invalid_range (int (length pages)) (fst (snd c)) (snd (snd c)) \<longrightarrow>
       writable (output_path_of (fst c))"
  from split_loop_all [OF this, of "[]"]
  show "split_pdf_by_chapters writable (Pdf pages) chapter_pages =
        map (\<lambda>(title_with_num, file_start, file_end).
               if invalid_range (int (length pages)) file_start file_end
               then WarningSkipping title_with_num file_start file_end
               else Created (output_path_of title_with_num) file_start file_end) chapter_pages @
        [SplittingComplete]"
    by (simp add: split_pdf_by_chapters_def)
qed

text \<open>
  Claim C3 on a four-page document: three invalid chapters are skipped, one for each
  reason, and the two valid ones are written.
\<close>

theorem split_skips_invalid_ranges_and_continues_witness:
  "invalid_range 4 0 2 \<and> invalid_range 4 4 64 \<and> invalid_range 4 4 3 \<and> \<not> invalid_range 4 2 3 \<and>
   split_pdf_by_chapters (\<lambda>path. True) (Pdf sample_pages) sample_file_map =
     [WarningSkipping ''0 Preface'' 0 2,
      Created ''chapters_output/1_Introduction.pdf'' 2 3,
      WarningSkipping ''2 Basics'' 4 64,
      WarningSkipping ''3 More'' 4 3,
      Created ''chapters_output/4_Last.pdf'' 4 4,
      SplittingComplete]"
proof -
  have inv: "invalid_range 4 0 2 \<and> invalid_range 4 4 64 \<and> invalid_range 4 4 3 \<and> \<not> invalid_range 4 2 3"
    by (simp add: invalid_range_def)
  have w: "\<forall>c \<in> set sample_file_map.
       \<not> invalid_range (int (length sample_pages)) (fst (snd c)) (snd (snd c)) \<longrightarrow>
       (\<lambda>path. True) (output_path_of (fst c))"
    by simp
  have names: "output_path_of ''1 Introduction'' = ''chapters_output/1_Introduction.pdf''"
    "output_path_of ''4 Last'' = ''chapters_output/4_Last.pdf''"
    by code_simp+
  from split_skips_invalid_ranges_and_continues
    [of 4 0 2 "\<lambda>path. True" "''0 Preface''" "[]" "[]" sample_file_map sample_pages] w
  have "split_pdf_by_chapters (\<lambda>path. True) (Pdf sample_pages) sample_file_map =
        map (\<lambda>(title_with_num, file_start, file_end).
               if invalid_range (int (length sample_pages)) file_start file_end
               then WarningSkipping title_with_num file_start file_end
               else Created (output_path_of title_with_num) file_start file_end) sample_file_map @
        [SplittingComplete]"
    by blast
  then have "split_pdf_by_chapters (\<lambda>path. True) (Pdf sample_pages) sample_file_map =
     [WarningSkipping ''0 Preface'' 0 2,
      Created ''chapters_output/1_Introduction.pdf'' 2 3,
      WarningSkipping ''2 Basics'' 4 64,
      WarningSkipping ''3 More'' 4 3,
      Created ''chapters_output/4_Last.pdf'' 4 4,
      SplittingComplete]"
    by (simp add: sample_file_map_def sample_pages_def invalid_range_def names)
  with inv show ?thesis by simp
qed

lemma takeWhile_all_same:
  assumes "\<forall>c \<in> set s. P c \<longrightarrow> c = x"
  shows "\<exists>a. takeWhile P s = replicate a x"
proof -
  have "\<forall>y \<in> set (takeWhile P s). y = x"
    using assms by (auto dest: set_takeWhileD)
  then have "replicate (length (takeWhile P s)) x = takeWhile P s"
    by (rule replicate_length_same)
  then show ?thesis by (intro exI [of _ "length (takeWhile P s)"]) simp
qed

lemma rstrip_decomposition:
  assumes "\<forall>c \<in> set l. isspace c \<longrightarrow> c = x"
  shows "\<exists>b. l = rstrip l @ replicate b x"
proof -
  have "\<forall>c \<in> set (rev l). isspace c \<longrightarrow> c = x"
    using assms by simp
  from takeWhile_all_same [OF this] obtain b where
    b: "takeWhile isspace (rev l) = replicate b x" by blast
  have "rev (takeWhile isspace (rev l) @ dropWhile isspace (rev l)) = l"
    by (simp only: takeWhile_dropWhile_id rev_rev_ident)
  then have "rev (dropWhile isspace (rev l)) @ rev (replicate b x) = l"
    by (simp only: rev_append b)
  then have "l = rstrip l @ replicate b x"
    by (simp add: rstrip_def)
  then show ?thesis by (rule exI)
qed

lemma strip_decomposition:
  assumes "\<forall>c \<in> set s. isspace c \<longrightarrow> c = x"
  shows "\<exists>a b. s = replicate a x @ strip s @ replicate b x"
proof -
  obtain a where a: "takeWhile isspace s = replicate a x"
    using takeWhile_all_same [OF assms] by blast
  have s: "replicate a x @ lstrip s = s"
    unfolding lstrip_def a [symmetric] by (rule takeWhile_dropWhile_id)
  have "\<forall>c \<in> set (lstrip s). isspace c \<longrightarrow> c = x"
    using assms by (auto simp: lstrip_def dest: set_dropWhileD)
  from rstrip_decomposition [OF this] obtain b where
    b: "lstrip s = rstrip (lstrip s) @ replicate b x" by blast
  have "s = replicate a x @ strip s @ replicate b x"
    unfolding strip_def using s b by metis
  then show ?thesis by blast
qed

lemma rstrip_last: "rstrip l \<noteq> [] \<Longrightarrow> \<not> isspace (last (rstrip l))"
proof -
  assume "rstrip l \<noteq> []"
  then have ne: "dropWhile isspace (rev l) \<noteq> []" by (simp add: rstrip_def)
  then have "\<not> isspace (hd (dropWhile isspace (rev l)))" by (rule hd_dropWhile)
  with ne show ?thesis by (simp add: rstrip_def last_rev)
qed

lemma rstrip_hd: "rstrip l \<noteq> [] \<Longrightarrow> hd (rstrip l) = hd l"
proof -
  assume ne: "rstrip l \<noteq> []"
  have "rev (takeWhile isspace (rev l) @ dropWhile isspace (rev l)) = l"
    by (simp only: takeWhile_dropWhile_id rev_rev_ident)
  then have "rstrip l @ rev (takeWhile isspace (rev l)) = l"
    by (simp only: rev_append rstrip_def)
  then have "hd l = hd (rstrip l @ rev (takeWhile isspace (rev l)))" by simp
  also have "\<dots> = hd (rstrip l)" using ne by (rule hd_append2)
  finally show ?thesis by simp
qed

lemma strip_ends:
  assumes "strip s \<noteq> []"
  shows "\<not> isspace (hd (strip s)) \<and> \<not> isspace (last (strip s))"
proof -
  from assms have ne: "rstrip (lstrip s) \<noteq> []" by (simp add: strip_def)
  then have "lstrip s \<noteq> []" by (auto simp: rstrip_def)
  then have "\<not> isspace (hd (lstrip s))" unfolding lstrip_def by (rule hd_dropWhile)
  with rstrip_hd [OF ne] rstrip_last [OF ne] show ?thesis by (simp add: strip_def)
qed

lemma isspace_cases:
  "isspace c \<longleftrightarrow> c = CHR 0x09 \<or> c = CHR 0x0A \<or> c = CHR 0x0B \<or> c = CHR 0x0C \<or> c = CHR 0x0D \<or>
     c = CHR 0x1C \<or> c = CHR 0x1D \<or> c = CHR 0x1E \<or> c = CHR 0x1F \<or> c = CHR '' ''"
  by (simp add: isspace_def whitespace_chars_def)

lemma not_alnum_space: "isspace c \<Longrightarrow> \<not> isalnum c"
  unfolding isspace_cases
  by (elim disjE) (simp_all add: isalnum_def isalpha_def isdigit_def)

lemma isspace_not_kept:
  "isspace c \<Longrightarrow> c \<noteq> CHR '' '' \<Longrightarrow> \<not> isalnum c \<and> c \<noteq> CHR ''_'' \<and> c \<noteq> CHR ''-''"
  using not_alnum_space [of c] by (auto simp: isspace_cases)

lemma underscore_not_space: "\<not> isspace CHR ''_''"
  by (simp add: isspace_def whitespace_chars_def)

text \<open>
  Claim C9, as amended.  The sanitised title consists of alphanumerics, spaces,
  underscores and hyphens only; it is the title with every other character replaced by an
  underscore, less the spaces at its two ends; and \<open>Error Handling: Part 1\<close> becomes
  \<open>Error Handling_ Part 1\<close>: the colon is replaced, the spaces are kept.
\<close>

theorem filename_sanitization:
  "(\<forall>c \<in> set (safe_title_part_of clean_title).
      isalnum c \<or> c = CHR '' '' \<or> c = CHR ''_'' \<or> c = CHR ''-'') \<and>
   (\<exists>a b. map (\<lambda>c. if isalnum c \<or> c \<in> {CHR '' '', CHR ''_'', CHR ''-''} then c else CHR ''_'')
             clean_title =
           replicate a CHR '' '' @ safe_title_part_of clean_title @ replicate b CHR '' '') \<and>
   (safe_title_part_of clean_title \<noteq> [] \<longrightarrow>
      hd (safe_title_part_of clean_title) \<noteq> CHR '' '' \<and>
      last (safe_title_part_of clean_title) \<noteq> CHR '' '') \<and>
   safe_title_part_of ''Error Handling: Part 1'' = ''Error Handling_ Part 1'' \<and>
   output_filename_of ''1 Error Handling: Part 1'' = ''1_Error Handling_ Part 1.pdf''"
proof -
  define m where "m = map (\<lambda>c. if isalnum c \<or> c \<in> {CHR '' '', CHR ''_'', CHR ''-''} then c
                                else CHR ''_'') clean_title"
  have safe: "safe_title_part_of clean_title = strip m"
    by (simp add: safe_title_part_of_def m_def)
  have kept: "\<forall>c \<in> set m. isalnum c \<or> c = CHR '' '' \<or> c = CHR ''_'' \<or> c = CHR ''-''"
    by (auto simp: m_def)
  have spaces: "\<forall>c \<in> set m. isspace c \<longrightarrow> c = CHR '' ''"
  proof (intro ballI impI)
    fix c assume c: "c \<in> set m" "isspace c"
    with kept have "isalnum c \<or> c = CHR '' '' \<or> c = CHR ''_'' \<or> c = CHR ''-''" by blast
    with isspace_not_kept [OF c(2)] show "c = CHR '' ''" by blast
  qed
  from strip_decomposition [OF spaces] obtain a b where
    ab: "m = replicate a CHR '' '' @ strip m @ replicate b CHR '' ''"
    by blast
  then have "set (strip m) \<subseteq> set m"
    by (metis Un_upper1 Un_upper2 set_append subset_trans)
  with kept have c1: "\<forall>c \<in> set (strip m).
      isalnum c \<or> c = CHR '' '' \<or> c = CHR ''_'' \<or> c = CHR ''-''"
    by blast
  have sp: "isspace CHR '' ''" by (simp add: isspace_def whitespace_chars_def)
  have c3: "strip m \<noteq> [] \<longrightarrow> hd (strip m) \<noteq> CHR '' '' \<and> last (strip m) \<noteq> CHR '' ''"
    using strip_ends [of m] sp by metis
  have c4: "safe_title_part_of ''Error Handling: Part 1'' = ''Error Handling_ Part 1''"
    by code_simp
  have c5: "output_filename_of ''1 Error Handling: Part 1'' = ''1_Error Handling_ Part 1.pdf''"
    by code_simp
  have c2: "\<exists>a b. m = replicate a CHR '' '' @ strip m @ replicate b CHR '' ''"
    using ab by blast
  show ?thesis
    unfolding safe
    using c1 c2 c3 c4 c5 unfolding m_def by (intro conjI)
qed

text \<open>
  Claim C9 on a title with spaces at its ends.
\<close>

theorem filename_sanitization_witness:
  "safe_title_part_of '' a/b: c-d_e '' = ''a_b_ c-d_e'' \<and>
   hd (safe_title_part_of '' a/b: c-d_e '') \<noteq> CHR '' '' \<and>
   last (safe_title_part_of '' a/b: c-d_e '') \<noteq> CHR '' ''"
proof -
  have v: "safe_title_part_of '' a/b: c-d_e '' = ''a_b_ c-d_e''"
    by code_simp
  then have "safe_title_part_of '' a/b: c-d_e '' \<noteq> []" by simp
  with filename_sanitization [of "'' a/b: c-d_e ''"] v show ?thesis
    by blast
qed

text \<open>
  Claim C9 as stated fails on its own example: the spaces are kept, not replaced.
\<close>

theorem filename_sanitization_counterexample:
  "safe_title_part_of ''Error Handling: Part 1'' \<noteq> ''Error_Handling__Part_1'' \<and>
   safe_title_part_of ''Error Handling: Part 1'' = ''Error Handling_ Part 1''"
  by code_simp

subsection \<open>The manual fallback and the projection to file pages\<close>

text \<open>
  Claim C5, as amended.  Outside the hardcoded case (first chapter \<open>1 Error Handling\<close>
  with anchor page 3) the manual fallback, which runs whenever the scan returned
  \<open>None\<close>, needs a line of input (with none left it ends in \<open>EOFError\<close>); a line that
  is an integer of at least 1 gives the offset, that page minus the anchor's printed
  page; a line that is no integer or is an integer below 1 is rejected and the next line
  is read.  The anchor is the first chapter's printed page when that exceeds 1, else 1.
\<close>

theorem manual_fallback_prompts_unless_hardcoded:
  assumes "\<not> (first_chapter_title = ''1 Error Handling'' \<and>
              anchor_printed_page_of first_chapter_title first_chapter_printed_page = 3)"
  shows
    "manual_fallback first_chapter_title first_chapter_printed_page [] = Inl EOFError \<and>
     (\<forall>n. py_int (strip user_input) = Some n \<and> 1 \<le> n \<longrightarrow>
        manual_fallback first_chapter_title first_chapter_printed_page (user_input # rest) =
          Inr (n - anchor_printed_page_of first_chapter_title first_chapter_printed_page, rest)) \<and>
     (py_int (strip user_input) = None \<or> (\<exists>n. py_int (strip user_input) = Some n \<and> n < 1) \<longrightarrow>
        manual_fallback first_chapter_title first_chapter_printed_page (user_input # rest) =
        manual_fallback first_chapter_title first_chapter_printed_page rest) \<and>
     resolve_page_offset None first_chapter_title first_chapter_printed_page inputs =
       manual_fallback first_chapter_title first_chapter_printed_page inputs \<and>
     anchor_printed_page_of first_chapter_title first_chapter_printed_page =
       (if first_chapter_title \<noteq> [] \<and> 1 < first_chapter_printed_page
        then first_chapter_printed_page else 1)"
  using assms
  by (auto simp: manual_fallback_def resolve_page_offset_def anchor_printed_page_of_def
        FIRST_PRINTED_PAGE_NUMBER_def Let_def)

text \<open>
  Claim C5 on sample input: \<open>abc\<close> and \<open>0\<close> are rejected, \<open>27\<close> is accepted.
\<close>

theorem manual_fallback_prompts_unless_hardcoded_witness:
  "manual_fallback ''1 Introduction'' 3 [] = Inl EOFError \<and>
   py_int (strip '' 27 '') = Some 27 \<and>
   manual_fallback ''1 Introduction'' 3 ['' 27 '', ''99''] = Inr (27 - 3, [''99'']) \<and>
   py_int (strip ''abc'') = None \<and> py_int (strip ''0'') = Some 0 \<and>
   manual_fallback ''1 Introduction'' 3 [''abc'', ''0'', '' 27 '', ''99''] = Inr (24, [''99''])"
proof -
  have h: "\<not> (''1 Introduction'' = ''1 Error Handling'' \<and>
              anchor_printed_page_of ''1 Introduction'' 3 = 3)"
    by simp
  have p: "py_int (strip '' 27 '') = Some 27" "py_int (strip ''abc'') = None"
    "py_int (strip ''0'') = Some 0"
    by code_simp+
  have a: "anchor_printed_page_of ''1 Introduction'' 3 = 3"
    by (simp add: anchor_printed_page_of_def FIRST_PRINTED_PAGE_NUMBER_def)
  note t = manual_fallback_prompts_unless_hardcoded [OF h]
  have e: "manual_fallback ''1 Introduction'' 3 [] = Inl EOFError"
    using t by blast
  have ok: "manual_fallback ''1 Introduction'' 3 ['' 27 '', ''99''] = Inr (27 - 3, [''99''])"
    using t [of "'' 27 ''" "[''99'']"] p(1) a by simp
  have s1: "manual_fallback ''1 Introduction'' 3 [''abc'', ''0'', '' 27 '', ''99''] =
            manual_fallback ''1 Introduction'' 3 [''0'', '' 27 '', ''99'']"
    using t [of "''abc''" "[''0'', '' 27 '', ''99'']"] p(2) by blast
  have s2: "manual_fallback ''1 Introduction'' 3 [''0'', '' 27 '', ''99''] =
            manual_fallback ''1 Introduction'' 3 ['' 27 '', ''99'']"
    using t [of "''0''" "['' 27 '', ''99'']"] p(3) by simp
  from e ok s1 s2 p show ?thesis by simp
qed

text \<open>
  Claim C5 as stated fails in the hardcoded case: the scan has failed, no input is read
  (the result is there with no input at all), and the offset is 24 whatever page the
  user would supply.
\<close>

theorem manual_fallback_hardcoded_counterexample:
  "resolve_page_offset None ''1 Error Handling'' 3 [] = Inr (24, []) \<and>
   py_int (strip ''30'') = Some 30 \<and>
   resolve_page_offset None ''1 Error Handling'' 3 [''30''] = Inr (24, [''30'']) \<and>
   (24 :: int) \<noteq> 30 - 3"
  by code_simp

lemma distinct_ranges_keys:
  "distinct (map fst xs) \<Longrightarrow> distinct (map fst (ranges_of_sorted lpp xs))"
proof (induction lpp xs rule: ranges_of_sorted.induct)
  case (1 lpp)
  then show ?case by simp
next
  case (2 lpp title start_page)
  then show ?case by simp
next
  case (3 lpp title start_page title' next_start rest)
  have "title \<notin> fst ` set (ranges_of_sorted lpp ((title', next_start) # rest))"
  proof
    assume "title \<in> fst ` set (ranges_of_sorted lpp ((title', next_start) # rest))"
    then obtain s e where "(title, s, e) \<in> set (ranges_of_sorted lpp ((title', next_start) # rest))"
      by auto
    then have "(title, s) \<in> set ((title', next_start) # rest)"
      by (rule ranges_starts_subset)
    then have "title \<in> fst ` set ((title', next_start) # rest)" by force
    with 3(2) show False by simp
  qed
  with 3 show ?case by simp
qed

lemma last_range_kept:
  "xs \<noteq> [] \<Longrightarrow> snd (last xs) \<le> lpp \<Longrightarrow>
   ranges_of_sorted lpp xs \<noteq> [] \<and>
   last (ranges_of_sorted lpp xs) = (fst (last xs), snd (last xs), lpp)"
  by (induction lpp xs rule: ranges_of_sorted.induct) auto

lemma last_range_dropped:
  "xs \<noteq> [] \<Longrightarrow> distinct (map fst xs) \<Longrightarrow> lpp < snd (last xs) \<Longrightarrow>
   fst (last xs) \<notin> fst ` set (ranges_of_sorted lpp xs)"
proof (induction lpp xs rule: ranges_of_sorted.induct)
  case (1 lpp)
  then show ?case by simp
next
  case (2 lpp title start_page)
  then show ?case by simp
next
  case (3 lpp title start_page title' next_start rest)
  have "last ((title', next_start) # rest) \<in> set ((title', next_start) # rest)"
    by (rule last_in_set) simp
  then have "fst (last ((title', next_start) # rest)) \<in> fst ` set ((title', next_start) # rest)"
    by (rule imageI)
  with 3(3) have neq: "fst (last ((title', next_start) # rest)) \<noteq> title" by auto
  have lst: "last ((title, start_page) # (title', next_start) # rest) =
             last ((title', next_start) # rest)"
    by simp
  from 3 have IH: "fst (last ((title', next_start) # rest)) \<notin>
      fst ` set (ranges_of_sorted lpp ((title', next_start) # rest))"
    by simp
  show ?case
    unfolding lst using IH neq by (auto simp: image_iff)
qed

lemma file_chapter_map_foldl:
  "distinct (map fst (acc @ rs)) \<Longrightarrow>
   foldl (\<lambda>file_chapter_map (title, printed_start, printed_end).
            dict_set file_chapter_map title (printed_start + off, printed_end + off)) acc rs =
   acc @ map (\<lambda>(title, printed_start, printed_end). (title, printed_start + off, printed_end + off)) rs"
proof (induction rs arbitrary: acc)
  case Nil
  then show ?case by simp
next
  case (Cons r rs)
  obtain title s e where r: "r = (title, s, e)" by (cases r)
  from Cons.prems have fresh: "title \<notin> fst ` set acc" by (auto simp: r)
  from Cons.prems have d: "distinct (map fst ((acc @ [(title, s + off, e + off)]) @ rs))"
    by (auto simp: r)
  show ?case
    by (simp add: r dict_set_new [OF fresh] Cons.IH [OF d])
qed

lemma file_chapter_map_of_map:
  "distinct (map fst rs) \<Longrightarrow>
   file_chapter_map_of off rs =
     map (\<lambda>(title, printed_start, printed_end). (title, printed_start + off, printed_end + off)) rs"
  using file_chapter_map_foldl [of "[]" rs off] by (simp add: file_chapter_map_of_def)

text \<open>
  Claim C10, as amended.  Let the last chapter be the entry of the largest printed start
  page.  When that start does not exceed the last printed page (total pages minus the
  offset), the last file range is this chapter's, it ends on the last physical page, and
  the validation rejects it only if its \<open>file_start\<close> is below 1.  When the start
  exceeds the last printed page, the chapter has no range at all: the range mapper has
  dropped it.
\<close>

theorem last_chapter_reaches_last_page_when_kept:
  assumes "distinct (map fst printed_chapter_starts)" and "printed_chapter_starts \<noteq> []"
  shows
    "(case last (sort_key snd printed_chapter_starts) of (title, start_page) \<Rightarrow>
        (start_page \<le> last_printed_page_of total_pages page_offset \<longrightarrow>
           project_chapters total_pages page_offset printed_chapter_starts \<noteq> [] \<and>
           last (project_chapters total_pages page_offset printed_chapter_starts) =
             (title, start_page + page_offset, int total_pages) \<and>
           (invalid_range (int total_pages) (start_page + page_offset) (int total_pages) \<longleftrightarrow>
              start_page + page_offset < 1)) \<and>
        (last_printed_page_of total_pages page_offset < start_page \<longrightarrow>
           title \<notin> fst ` set (project_chapters total_pages page_offset printed_chapter_starts)))"
proof -
  define xs where "xs = sort_key snd printed_chapter_starts"
  define lpp where "lpp = last_printed_page_of total_pages page_offset"
  obtain title start_page where l: "last xs = (title, start_page)" by (cases "last xs")
  have ne: "xs \<noteq> []" using assms(2) by (metis length_sort list.size(3) length_0_conv xs_def)
  have dxs: "distinct (map fst xs)"
    using assms(1) unfolding xs_def by (metis distinct_map distinct_sort set_sort)
  have rs: "map_starts_to_ranges printed_chapter_starts lpp = ranges_of_sorted lpp xs"
    by (simp add: xs_def map_starts_to_ranges_sorted [OF assms(1)])
  have proj: "project_chapters total_pages page_offset printed_chapter_starts =
      map (\<lambda>(title, printed_start, printed_end).
             (title, printed_start + page_offset, printed_end + page_offset))
        (ranges_of_sorted lpp xs)"
    using file_chapter_map_of_map [OF distinct_ranges_keys [OF dxs, of lpp], of page_offset]
    by (simp add: project_chapters_def rs flip: lpp_def)
  have kept: "project_chapters total_pages page_offset printed_chapter_starts \<noteq> [] \<and>
           last (project_chapters total_pages page_offset printed_chapter_starts) =
             (title, start_page + page_offset, int total_pages)"
    if "start_page \<le> lpp"
  proof -
    from that have "snd (last xs) \<le> lpp" by (simp add: l)
    from last_range_kept [OF ne this]
    have r: "ranges_of_sorted lpp xs \<noteq> []"
      "last (ranges_of_sorted lpp xs) = (title, start_page, lpp)"
      by (simp_all add: l)
    have "lpp + page_offset = int total_pages"
      by (simp add: lpp_def last_printed_page_of_def)
    with r show ?thesis
      by (simp add: proj last_map)
  qed
  have valid: "invalid_range (int total_pages) (start_page + page_offset) (int total_pages) \<longleftrightarrow>
      start_page + page_offset < 1"
    if "start_page \<le> lpp"
    using that by (auto simp: invalid_range_def lpp_def last_printed_page_of_def)
  have dropped: "title \<notin> fst ` set (project_chapters total_pages page_offset printed_chapter_starts)"
    if "lpp < start_page"
  proof -
    from that have "lpp < snd (last xs)" by (simp add: l)
    from last_range_dropped [OF ne dxs this]
    have "title \<notin> fst ` set (ranges_of_sorted lpp xs)" by (simp add: l)
    then show ?thesis
      by (force simp: proj)
  qed
  from kept valid dropped show ?thesis
    unfolding xs_def [symmetric] lpp_def [symmetric] l by simp
qed

text \<open>
  Claim C10 on the sample starts and a document of 45 pages: with offset 5 the last
  chapter ends on page 45; with offset 30 it is dropped.
\<close>

theorem last_chapter_reaches_last_page_when_kept_witness:
  "last (sort_key snd sample_starts) = (''2 Basics'', 20) \<and>
   (20 :: int) \<le> last_printed_page_of 45 5 \<and>
   last (project_chapters 45 5 sample_starts) = (''2 Basics'', 20 + 5, 45) \<and>
   \<not> invalid_range 45 (20 + 5) 45 \<and>
   last_printed_page_of 45 30 < 20 \<and>
   ''2 Basics'' \<notin> fst ` set (project_chapters 45 30 sample_starts)"
proof -
  have d: "distinct (map fst sample_starts)" "sample_starts \<noteq> []"
    by (simp_all add: sample_starts_def)
  have l: "last (sort_key snd sample_starts) = (''2 Basics'', 20)"
    by (simp add: sample_starts_def)
  have h: "(20 :: int) \<le> last_printed_page_of 45 5" "last_printed_page_of 45 30 < 20"
    by (simp_all add: last_printed_page_of_def)
  from last_chapter_reaches_last_page_when_kept [OF d, of 45 5] h(1)
  have a: "last (project_chapters 45 5 sample_starts) = (''2 Basics'', 20 + 5, 45) \<and>
           (invalid_range 45 (20 + 5) 45 \<longleftrightarrow> (20 :: int) + 5 < 1)"
    by (simp add: l)
  from last_chapter_reaches_last_page_when_kept [OF d, of 45 30] h(2)
  have b: "''2 Basics'' \<notin> fst ` set (project_chapters 45 30 sample_starts)"
    by (simp add: l)
  from l h a b show ?thesis by simp
qed

text \<open>
  Claim C10 as stated fails: in a document of 10 pages with offset 0 the chapter
  starting on printed page 20 is dropped, the final range of the run is 3 to 19, and it
  is skipped because its \<open>file_end\<close> exceeds the page count.
\<close>

theorem last_chapter_dropped_counterexample:
  "distinct (map fst [(''1 Introduction'', 3 :: int), (''2 Basics of'', 20)]) \<and>
   project_chapters 10 0 [(''1 Introduction'', 3), (''2 Basics of'', 20)] =
     [(''1 Introduction'', 3, 19)] \<and>
   snd (snd (last (project_chapters 10 0 [(''1 Introduction'', 3), (''2 Basics of'', 20)]))) \<noteq> 10 \<and>
   invalid_range 10 3 19 \<and> \<not> (3 :: int) < 1 \<and> \<not> (19 :: int) < 3"
  by (simp add: project_chapters_def file_chapter_map_of_def map_starts_to_ranges_def
        range_step_def last_printed_page_of_def invalid_range_def Let_def)

end
